theory Spec2Isabelle
  imports Main
begin

section \<open>Text primitives used by libsea.py\<close>

text \<open>
  Python strings are modelled as \<open>string\<close> (lists of characters).  The characters the
  program names by escape sequences are written by their code.
\<close>

abbreviation NL :: char where "NL \<equiv> CHR 0x0A"
abbreviation CR :: char where "CR \<equiv> CHR 0x0D"
abbreviation TAB :: char where "TAB \<equiv> CHR 0x09"
abbreviation FF :: char where "FF \<equiv> CHR 0x0C"
abbreviation BS :: char where "BS \<equiv> CHR 0x08"
abbreviation BSL :: char where "BSL \<equiv> CHR 0x5C"
abbreviation DQ :: char where "DQ \<equiv> CHR 0x22"
abbreviation BAR :: char where "BAR \<equiv> CHR 0x7C"

text \<open>\<^verbatim>\<open>string.split(sep)\<close> for a one-character separator: always a non-empty list.\<close>

fun split :: "char \<Rightarrow> string \<Rightarrow> string list" where
  "split sep [] = [[]]"
| "split sep (c # cs) =
     (if c = sep then [] # split sep cs
      else (case split sep cs of [] \<Rightarrow> [[c]] | l # ls \<Rightarrow> (c # l) # ls))"

text \<open>\<^verbatim>\<open>sep.join(parts)\<close>.\<close>

fun join :: "string \<Rightarrow> string list \<Rightarrow> string" where
  "join sep [] = []"
| "join sep [x] = x"
| "join sep (x # y # ys) = x @ sep @ join sep (y # ys)"

text \<open>
  \<^verbatim>\<open>_indent(string, amount)\<close> (the leading underscore is not a legal name here).
  \<^verbatim>\<open>amount * " "\<close> is the empty string for a negative amount.
\<close>

definition indent_text :: "string \<Rightarrow> int \<Rightarrow> string" where
  "indent_text string amount =
     (if amount = 0 then string
      else join [NL]
        (map (\<lambda>line. if line \<noteq> [] then replicate (nat amount) CHR '' '' @ line else line)
          (split NL string)))"

text \<open>
  The decorator \<^verbatim>\<open>indentable\<close>: the wrapped function's result, indented by the
  keyword argument \<^verbatim>\<open>indent\<close> (0 when the caller gives none).
\<close>

definition indentable :: "string \<Rightarrow> int \<Rightarrow> string" where
  "indentable result indent = indent_text result indent"

text \<open>\<^verbatim>\<open>str(n)\<close> for a Python integer: decimal digits, a minus sign when negative.\<close>

function str_nat :: "nat \<Rightarrow> string" where
  "str_nat n =
     (if n < 10 then [''0123456789'' ! n]
      else str_nat (n div 10) @ [''0123456789'' ! (n mod 10)])"
  by pat_completeness auto
termination
  by (relation "measure id") auto

declare str_nat.simps [simp del]

definition str_int :: "int \<Rightarrow> string" where
  "str_int i = (if i < 0 then CHR ''-'' # str_nat (nat (- i)) else str_nat (nat i))"

text \<open>\<^verbatim>\<open>string.replace(old, new)\<close> for a one-character \<^verbatim>\<open>old\<close>.\<close>

definition replace :: "char \<Rightarrow> string \<Rightarrow> string \<Rightarrow> string" where
  "replace old new s = concat (map (\<lambda>c. if c = old then new else [c]) s)"

text \<open>
  \<^verbatim>\<open>re.sub(r'([\\"\n\r\t\f\b|])', r'\\\1', s)\<close>: every character of the class is
  replaced by a backslash followed by itself (inside a character class \<^verbatim>\<open>\b\<close> is the
  backspace character).
\<close>

definition escaped_chars :: "char list" where
  "escaped_chars = [BSL, DQ, NL, CR, TAB, FF, BS, BAR]"

definition re_sub_escape :: "string \<Rightarrow> string" where
  "re_sub_escape s = concat (map (\<lambda>c. if c \<in> set escaped_chars then [BSL, c] else [c]) s)"

section \<open>Python values and document nodes\<close>

text \<open>
  The native scalars the program handles.  A float is carried as the text \<^verbatim>\<open>str\<close>
  gives for it: the program does nothing with a float but print it.
\<close>

datatype scalar = SStr string | SFloat string | SInt int | SBool bool | SNone

fun py_str :: "scalar \<Rightarrow> string" where
  "py_str (SStr s) = s"
| "py_str (SFloat t) = t"
| "py_str (SInt i) = str_int i"
| "py_str (SBool b) = (if b then ''True'' else ''False'')"
| "py_str SNone = ''None''"

text \<open>Truth value of a scalar, as \<^verbatim>\<open>if self.value:\<close> tests it.\<close>

fun truthy :: "scalar \<Rightarrow> bool" where
  "truthy (SStr s) = (s \<noteq> [])"
| "truthy (SFloat t) = (t \<noteq> ''0.0'' \<and> t \<noteq> ''-0.0'')"
| "truthy (SInt i) = (i \<noteq> 0)"
| "truthy (SBool b) = b"
| "truthy SNone = False"

text \<open>
  \<open>pyval\<close> is any object handed to \<^verbatim>\<open>ser\<close>: a native scalar, a list, an insertion-ordered
  mapping with text keys, a tuple (with its \<^verbatim>\<open>_fields\<close>, empty for a plain tuple), or an
  instance of one of the \<^verbatim>\<open>Element\<close> classes.  An \<open>element\<close> holds the instance's fields
  as they are after construction.
\<close>

datatype pyval =
    Prim scalar
  | PList "pyval list"
  | PDict "(string \<times> pyval) list"
  | PTuple "string list" "pyval list"
  | PElem element
and element =
    Element
  | Value scalar
  | String string
  | Bool scalar
  | Identifier scalar
  | Double scalar
  | Integer scalar
  | Tuple "string list" "pyval list"
  | List "pyval list"
  | Object "(string \<times> pyval) list"

text \<open>\<^verbatim>\<open>String.__init__\<close>: carriage return and newline become backslash-letter pairs.\<close>

definition String_init :: "string \<Rightarrow> element" where
  "String_init v = String (replace NL [BSL, CHR ''n''] (replace CR [BSL, CHR ''r''] v))"

text \<open>\<^verbatim>\<open>String.serialize\<close>, before the decorator.\<close>

definition String_serialize :: "string \<Rightarrow> string" where
  "String_serialize v = [DQ] @ re_sub_escape v @ [DQ]"

definition Element_TERM :: string where
  "Element_TERM = '';''"

text \<open>\<^verbatim>\<open>Element._label\<close>.\<close>

definition label :: "string \<Rightarrow> bool \<Rightarrow> string" where
  "label name labels = (if labels then ''@'' @ name @ ''='' else [])"

text \<open>
  The \<^verbatim>\<open>if/elif\<close> chain at the head of \<^verbatim>\<open>ser\<close>: the object is wrapped according to its
  type, \<^verbatim>\<open>None\<close> becomes the empty text.  \<open>Inl\<close> is an object that has a
  \<^verbatim>\<open>serialize\<close> method, \<open>Inr\<close> one that has none (the \<^verbatim>\<open>AttributeError\<close>
  branch, which prints it with \<^verbatim>\<open>str\<close>).  The chain is read on an interpreter that
  still has \<^verbatim>\<open>collections.Mapping\<close>.
\<close>

fun ser_dispatch :: "pyval \<Rightarrow> element + scalar" where
  "ser_dispatch (Prim (SStr s)) = Inl (String_init s)"
| "ser_dispatch (Prim (SFloat f)) = Inl (Double (SFloat f))"
| "ser_dispatch (Prim (SInt i)) = Inl (Integer (SInt i))"
| "ser_dispatch (PList xs) = Inl (List xs)"
| "ser_dispatch (PDict d) = Inl (Object d)"
| "ser_dispatch (PTuple fields vals) = Inl (Tuple fields vals)"
| "ser_dispatch (Prim SNone) = Inr (SStr [])"
| "ser_dispatch (Prim (SBool b)) = Inr (SBool b)"
| "ser_dispatch (PElem e) = Inl e"

lemma ser_dispatch_size: "ser_dispatch obj = Inl e \<Longrightarrow> size e \<le> size obj"
  by (induction obj rule: ser_dispatch.induct) (auto simp: String_init_def)

text \<open>
  \<^verbatim>\<open>ser(obj, indent=ind, labels=labels)\<close>, the decorated \<^verbatim>\<open>serialize\<close> of every class
  and the undecorated bodies.  Every nested call of the source passes \<^verbatim>\<open>labels\<close>
  on, so the differing defaults of the classes only matter to the outermost caller.
\<close>

function ser :: "pyval \<Rightarrow> bool \<Rightarrow> int \<Rightarrow> string"
  and serialize :: "element \<Rightarrow> bool \<Rightarrow> int \<Rightarrow> string"
  and serialize_body :: "element \<Rightarrow> bool \<Rightarrow> string"
where
  "ser obj labels indent =
     (case ser_dispatch obj of
        Inl e \<Rightarrow> serialize e labels indent
      | Inr v \<Rightarrow> py_str v)"
| "serialize e labels indent = indentable (serialize_body e labels) indent"
| "serialize_body Element labels = []"
| "serialize_body (Value v) labels = py_str v"
| "serialize_body (String v) labels = String_serialize v"
| "serialize_body (Bool v) labels = (if truthy v then ''T'' else ''F'')"
| "serialize_body (Identifier v) labels = ''$'' @ py_str v"
| "serialize_body (Double v) labels = py_str v"
| "serialize_body (Integer v) labels = py_str v"
| "serialize_body (Tuple names values) labels =
     (if names \<noteq> [] then
        ''{'' @ join '' ''
          (map (\<lambda>(name, value). label name labels @ ser value labels 0 @ Element_TERM)
            (zip names values)) @ ''}''
      else
        ''{'' @ join '' '' (map (\<lambda>value. ser value labels 0 @ Element_TERM) values) @ ''}'')"
| "serialize_body (List items) labels =
     [CHR ''['', NL] @ join [CHR '','', NL] (map (\<lambda>item. ser item labels 4) items)
       @ [NL, CHR '']'']"
| "serialize_body (Object dict) labels =
     [CHR ''{'', NL] @
     concat (map (\<lambda>(key, value).
         indent_text (label key labels @ ser value labels 0 @ Element_TERM @ [NL]) 4) dict)
       @ ''}''"
  by pat_completeness auto
termination
proof (relation "measure (\<lambda>x. case x of
    Inl (obj, _, _) \<Rightarrow> 3 * size obj + 2
  | Inr (Inl (e, _, _)) \<Rightarrow> 3 * size e + 1
  | Inr (Inr (e, _)) \<Rightarrow> 3 * size e)", goal_cases)
  case 1
  show ?case by simp
next
  case (2 obj labels indent e)
  then show ?case using ser_dispatch_size [of obj e] by simp
next
  case (3 e labels indent)
  show ?case by simp
next
  case (4 names vals labels x name val)
  then have "val \<in> set vals" by (auto dest: set_zip_rightD)
  then have "size val \<le> size_list size vals" by (simp add: size_list_estimation')
  then show ?case by simp
next
  case (5 names vals labels val)
  then have "size val \<le> size_list size vals" by (simp add: size_list_estimation')
  then show ?case by simp
next
  case (6 items labels item)
  then have "size item \<le> size_list size items" by (simp add: size_list_estimation')
  then show ?case by simp
next
  case (7 dict labels x key val)
  then have "size_prod (\<lambda>x. 0) size (key, val) \<le> size_list (size_prod (\<lambda>x. 0) size) dict"
    by (simp add: size_list_estimation')
  then show ?case by simp
qed

section \<open>Dictionaries\<close>

text \<open>
  A Python dictionary (insertion-ordered) is an association list with distinct keys.
  \<open>dict_set\<close> is \<^verbatim>\<open>d[k] = v\<close>: an existing key keeps its position, a new one is
  appended.  \<open>dict_get\<close> is \<^verbatim>\<open>d.get(k, default)\<close>.
\<close>

fun dict_set :: "('k \<times> 'v) list \<Rightarrow> 'k \<Rightarrow> 'v \<Rightarrow> ('k \<times> 'v) list" where
  "dict_set [] k v = [(k, v)]"
| "dict_set ((k', v') # d) k v = (if k' = k then (k', v) # d else (k', v') # dict_set d k v)"

definition dict_get :: "('k \<times> 'v) list \<Rightarrow> 'k \<Rightarrow> 'v \<Rightarrow> 'v" where
  "dict_get d k dflt = (case map_of d k of Some v \<Rightarrow> v | None \<Rightarrow> dflt)"

section \<open>The external graph\<close>

text \<open>
  What \<^verbatim>\<open>from_graph\<close> reads of the graph it is given: \<^verbatim>\<open>graph.graph_attr\<close>,
  \<^verbatim>\<open>graph.nodes()\<close> and \<^verbatim>\<open>graph.edges()\<close>.  A node is its handle (the dictionary key
  in \<^verbatim>\<open>node_order\<close>) with its \<^verbatim>\<open>attr\<close> mapping; an edge is \<^verbatim>\<open>edge[0]\<close>,
  \<^verbatim>\<open>edge[1]\<close> and its \<^verbatim>\<open>attr\<close> mapping.  Attribute values are text.
\<close>

record 'n ext_node =
  node_id :: 'n
  node_attr :: "(string \<times> string) list"

record 'n ext_edge =
  edge_0 :: 'n
  edge_1 :: 'n
  edge_attr :: "(string \<times> string) list"

record 'n ext_graph =
  graph_attr :: "(string \<times> string) list"
  graph_nodes :: "'n ext_node list"
  graph_edges :: "'n ext_edge list"

section \<open>The Graph document\<close>

datatype 'n exc =
    Exception string
  | KeyError_node 'n
  | KeyError string
  | IndexError
  | AttributeError string

text \<open>The named tuples \<^verbatim>\<open>Link\<close> and \<^verbatim>\<open>attrValue\<close>.\<close>

definition Link :: "nat \<Rightarrow> nat \<Rightarrow> pyval" where
  "Link s d = PTuple [''source'', ''destination''] [Prim (SInt (int s)), Prim (SInt (int d))]"

definition attrValue :: "nat \<Rightarrow> pyval \<Rightarrow> pyval" where
  "attrValue i v = PTuple [''id'', ''value''] [Prim (SInt (int i)), v]"

definition attributeDefinition :: "(string \<times> pyval) list" where
  "attributeDefinition =
     [(''name'', Prim SNone), (''type'', Prim SNone), (''default'', Prim SNone),
      (''nodeValues'', PList []), (''linkValues'', PList []), (''pathValues'', PList [])]"

text \<open>
  The fields of a \<^verbatim>\<open>Graph\<close> instance.  \<^verbatim>\<open>__init__\<close> sets every field but
  \<^verbatim>\<open>description\<close>, which is \<open>None\<close> until something assigns it.  \<^verbatim>\<open>nodes\<close> is
  the empty list at first and the dictionary \<^verbatim>\<open>node_order\<close> after \<^verbatim>\<open>from_graph\<close>;
  only its length is read.
\<close>

record 'n Graph =
  name :: string
  description :: "string option"
  nodes :: "('n \<times> nat) list"
  links :: "pyval list"
  paths :: "pyval list"
  enums :: "pyval list"
  attributes :: "(string \<times> pyval) list list"
  attribute_order :: "(string \<times> nat) list"
  qualifiers :: "pyval list"

definition Graph_init :: "string \<Rightarrow> 'n Graph" where
  "Graph_init nm =
     \<lparr>name = nm, description = None, nodes = [], links = [], paths = [], enums = [],
      attributes = [], attribute_order = [], qualifiers = []\<rparr>"

text \<open>\<^verbatim>\<open>Graph.print_var\<close>, with its decorator.\<close>

definition print_var :: "string \<Rightarrow> pyval \<Rightarrow> bool \<Rightarrow> int \<Rightarrow> string" where
  "print_var nm v labels indent =
     indentable (label nm labels @ ser v labels 0 @ Element_TERM @ [NL]) indent"

definition pstr :: "string \<Rightarrow> pyval" where
  "pstr s = Prim (SStr s)"

definition pint :: "nat \<Rightarrow> pyval" where
  "pint n = Prim (SInt (int n))"

text \<open>
  \<^verbatim>\<open>Graph.serialize\<close> before the decorator.  Reading \<^verbatim>\<open>self.description\<close> raises
  \<^verbatim>\<open>AttributeError\<close> when the field was never assigned.
\<close>

definition Graph_serialize_body :: "'n Graph \<Rightarrow> bool \<Rightarrow> bool \<Rightarrow> 'n exc + string" where
  "Graph_serialize_body self labels comments =
     (case description self of
        None \<Rightarrow> Inl (AttributeError ''description'')
      | Some descr \<Rightarrow> Inr (concat
         [''Graph'' @ [NL],
          ''{'' @ [NL],
          if comments then indent_text (''# Metadata'' @ [NL]) 4 else [],
          print_var ''name'' (pstr (name self)) labels 4,
          print_var ''description'' (pstr descr) labels 4,
          if comments then [NL] else [],
          if comments then indent_text (''# Lengths'' @ [NL]) 4 else [],
          print_var ''numNodes'' (pint (length (nodes self))) labels 4,
          print_var ''numLinks'' (pint (length (links self))) labels 4,
          print_var ''numPaths'' (pint (length (paths self))) labels 4,
          print_var ''numPathLinks'' (pint 0) labels 4,
          if comments then [NL] else [],
          if comments then indent_text (''# Structural information'' @ [NL]) 4 else [],
          print_var ''links'' (PList (links self)) labels 4,
          print_var ''paths'' (PList (paths self)) labels 4,
          if comments then [NL] else [],
          if comments then indent_text (''# Attributes'' @ [NL]) 4 else [],
          print_var ''enumerations'' (PList (enums self)) labels 4,
          print_var ''attributeDefinitions'' (PList (map PDict (attributes self))) labels 4,
          print_var ''qualifiers'' (PList (qualifiers self)) labels 4,
          if comments then [NL] else [],
          if comments then indent_text (''# Visualization'' @ [NL]) 4 else [],
          print_var ''filters'' (Prim SNone) labels 4,
          print_var ''selectors'' (Prim SNone) labels 4,
          print_var ''displays'' (Prim SNone) labels 4,
          print_var ''presentations'' (Prim SNone) labels 4,
          if comments then [NL] else [],
          if comments then indent_text (''# Interface'' @ [NL]) 4 else [],
          print_var ''presentationMenus'' (Prim SNone) labels 4,
          print_var ''displayMenus'' (Prim SNone) labels 4,
          print_var ''selectorMenus'' (Prim SNone) labels 4,
          print_var ''filterMenus'' (Prim SNone) labels 4,
          print_var ''attributeMenus'' (Prim SNone) labels 4,
          ''}'']))"

definition Graph_serialize :: "'n Graph \<Rightarrow> bool \<Rightarrow> bool \<Rightarrow> int \<Rightarrow> 'n exc + string" where
  "Graph_serialize self labels comments indent =
     (case Graph_serialize_body self labels comments of
        Inl e \<Rightarrow> Inl e
      | Inr result \<Rightarrow> Inr (indentable result indent))"

section \<open>Assembling a document from a graph\<close>

text \<open>
  The local \<^verbatim>\<open>attributes\<close> of \<^verbatim>\<open>from_graph\<close> is a
  \<^verbatim>\<open>defaultdict(lambda: defaultdict(dict))\<close>: attribute name, then \<^verbatim>\<open>'nodeValues'\<close> or
  \<^verbatim>\<open>'linkValues'\<close>, then element id.  \<open>store\<close> is
  \<^verbatim>\<open>attributes[attribute_name][kind][i] = value\<close>, creating the missing levels.
\<close>

type_synonym buckets = "(string \<times> (string \<times> (nat \<times> pyval) list) list) list"

definition store :: "buckets \<Rightarrow> string \<Rightarrow> string \<Rightarrow> nat \<Rightarrow> pyval \<Rightarrow> buckets" where
  "store attrs attribute_name kind i v =
     (let data = dict_get attrs attribute_name [];
          vals = dict_get data kind []
      in dict_set attrs attribute_name (dict_set data kind (dict_set vals i v)))"

text \<open>The two lines that recognise the texts \<^verbatim>\<open>"True"\<close> and \<^verbatim>\<open>"False"\<close>.\<close>

definition attr_value :: "string \<Rightarrow> pyval" where
  "attr_value v =
     (if v = ''True'' then PElem (Value (SStr ''T''))
      else if v = ''False'' then PElem (Value (SStr ''F''))
      else Prim (SStr v))"

text \<open>
  The inner loop over the attributes of one node or edge:
  \<^verbatim>\<open>for attribute_name in x.attr: value = x.attr[attribute_name]; ...\<close>.
  The names iterated are the keys of the mapping, so the lookup always finds one.
\<close>

definition attr_loop :: "(string \<times> string) list \<Rightarrow> string \<Rightarrow> nat \<Rightarrow> buckets \<Rightarrow> buckets" where
  "attr_loop attr kind i attrs =
     fold (\<lambda>attribute_name acc.
             store acc attribute_name kind i (attr_value (dict_get attr attribute_name [])))
       (map fst attr) attrs"

text \<open>The loop over \<^verbatim>\<open>enumerate(graph.nodes())\<close>; \<open>i\<close> is the running index.\<close>

fun node_loop ::
  "nat \<Rightarrow> 'n ext_node list \<Rightarrow> ('n \<times> nat) list \<times> buckets \<Rightarrow> ('n \<times> nat) list \<times> buckets"
where
  "node_loop i [] st = st"
| "node_loop i (node # rest) (node_order, attrs) =
     node_loop (Suc i) rest
       (dict_set node_order (node_id node) i, attr_loop (node_attr node) ''nodeValues'' i attrs)"

text \<open>
  The loop over \<^verbatim>\<open>enumerate(graph.edges())\<close>.  \<^verbatim>\<open>node_order[edge[0]]\<close> raises
  \<^verbatim>\<open>KeyError\<close> for an end point that is no node of the graph.
\<close>

fun edge_loop ::
  "('n \<times> nat) list \<Rightarrow> nat \<Rightarrow> 'n ext_edge list \<Rightarrow> pyval list \<times> buckets
     \<Rightarrow> 'n exc + pyval list \<times> buckets"
where
  "edge_loop node_order i [] st = Inr st"
| "edge_loop node_order i (edge # rest) (lnks, attrs) =
     (case map_of node_order (edge_0 edge) of
        None \<Rightarrow> Inl (KeyError_node (edge_0 edge))
      | Some id1 \<Rightarrow>
         (case map_of node_order (edge_1 edge) of
            None \<Rightarrow> Inl (KeyError_node (edge_1 edge))
          | Some id2 \<Rightarrow>
             edge_loop node_order (Suc i) rest
               (lnks @ [Link id1 id2], attr_loop (edge_attr edge) ''linkValues'' i attrs)))"

text \<open>
  The loop over \<^verbatim>\<open>enumerate(attributes)\<close> that builds one attribute definition for
  each name and records its index.
\<close>

definition make_attr :: "buckets \<Rightarrow> string \<Rightarrow> (string \<times> pyval) list" where
  "make_attr attrs nm =
     (let data = dict_get attrs nm [];
          attr = attributeDefinition;
          attr = dict_set attr ''name'' (PElem (Identifier (SStr nm)));
          attr = dict_set attr ''type'' (PElem (Value (SStr ''string'')));
          attr = dict_set attr ''nodeValues''
                   (PList (map (\<lambda>(i, v). attrValue i v) (dict_get data ''nodeValues'' [])));
          attr = dict_set attr ''linkValues''
                   (PList (map (\<lambda>(i, v). attrValue i v) (dict_get data ''linkValues'' [])))
      in attr)"

fun definition_loop ::
  "buckets \<Rightarrow> nat \<Rightarrow> string list
     \<Rightarrow> (string \<times> pyval) list list \<times> (string \<times> nat) list
     \<Rightarrow> (string \<times> pyval) list list \<times> (string \<times> nat) list"
where
  "definition_loop attrs i [] st = st"
| "definition_loop attrs i (nm # rest) (defs, order) =
     definition_loop attrs (Suc i) rest (defs @ [make_attr attrs nm], dict_set order nm i)"

text \<open>\<^verbatim>\<open>LibSea.attributes[i]['type'] = v\<close>.\<close>

definition set_type ::
  "(string \<times> pyval) list list \<Rightarrow> nat \<Rightarrow> pyval \<Rightarrow> 'n exc + (string \<times> pyval) list list" where
  "set_type defs i v =
     (if i < length defs then Inr (defs[i := dict_set (defs ! i) ''type'' v])
      else Inl IndexError)"

definition spanning_tree_qualifier :: "nat \<Rightarrow> nat \<Rightarrow> pyval" where
  "spanning_tree_qualifier r t =
     PDict
       [(''type'', PElem (Identifier (SStr ''spanning_tree''))),
        (''name'', PElem (Identifier (SStr ''default_spanning_tree''))),
        (''description'', Prim (SStr ''Spanning tree for walrus'')),
        (''attributes'',
           PList [PTuple [] [Prim (SInt (int r)), PElem (Identifier (SStr ''root''))],
                  PTuple [] [Prim (SInt (int t)), PElem (Identifier (SStr ''tree_link''))]])]"

text \<open>
  The state of the local variables after the two scanning loops: \<^verbatim>\<open>node_order\<close> and
  \<^verbatim>\<open>attributes\<close> after the nodes, \<^verbatim>\<open>links\<close> and \<^verbatim>\<open>attributes\<close> after the edges.
\<close>

definition scan_nodes :: "'n ext_graph \<Rightarrow> ('n \<times> nat) list \<times> buckets" where
  "scan_nodes graph = node_loop 0 (graph_nodes graph) ([], [])"

definition scan_edges :: "'n ext_graph \<Rightarrow> 'n exc + pyval list \<times> buckets" where
  "scan_edges graph =
     edge_loop (fst (scan_nodes graph)) 0 (graph_edges graph) ([], snd (scan_nodes graph))"

text \<open>
  Lines 308 to 320 of \<^verbatim>\<open>from_graph\<close>: one attribute definition for each name of
  \<^verbatim>\<open>attributes\<close>, appended to \<^verbatim>\<open>LibSea.attributes\<close>, and its index recorded in
  \<^verbatim>\<open>LibSea.attribute_order\<close>.
\<close>

definition materialize :: "buckets \<Rightarrow> 'n Graph \<Rightarrow> 'n Graph" where
  "materialize attrs LibSea =
     (let (defs, order) =
            definition_loop attrs 0 (map fst attrs) (attributes LibSea, attribute_order LibSea)
      in LibSea\<lparr>attributes := defs, attribute_order := order\<rparr>)"

text \<open>
  Lines 322 to 333: the type tags of \<^verbatim>\<open>root\<close> and \<^verbatim>\<open>tree_link\<close> are set to
  \<^verbatim>\<open>Value('bool')\<close> and the spanning-tree qualifier is appended.
  \<^verbatim>\<open>LibSea.attribute_order[...]\<close> raises \<^verbatim>\<open>KeyError\<close> for a name that is not there.
\<close>

definition bool_tag :: pyval where
  "bool_tag = PElem (Value (SStr ''bool''))"

definition spanning_tree :: "'n Graph \<Rightarrow> 'n exc + 'n Graph" where
  "spanning_tree LibSea =
     (case map_of (attribute_order LibSea) ''root'' of
        None \<Rightarrow> Inl (KeyError ''root'')
      | Some r \<Rightarrow>
         (case set_type (attributes LibSea) r bool_tag of
            Inl e \<Rightarrow> Inl e
          | Inr defs1 \<Rightarrow>
             (case map_of (attribute_order LibSea) ''tree_link'' of
                None \<Rightarrow> Inl (KeyError ''tree_link'')
              | Some t \<Rightarrow>
                 (case set_type defs1 t bool_tag of
                    Inl e \<Rightarrow> Inl e
                  | Inr defs2 \<Rightarrow>
                     Inr (LibSea\<lparr>attributes := defs2,
                           qualifiers :=
                             qualifiers LibSea @ [spanning_tree_qualifier r t]\<rparr>)))))"

text \<open>\<^verbatim>\<open>Graph.from_graph\<close>.\<close>

definition from_graph :: "'n ext_graph \<Rightarrow> 'n exc + 'n Graph" where
  "from_graph graph =
     (let LibSea = Graph_init ''Graph'';
          LibSea = LibSea\<lparr>name := dict_get (graph_attr graph) ''name'' ''Graph''\<rparr>;
          LibSea = LibSea\<lparr>description :=
                      Some (dict_get (graph_attr graph) ''description'' ''Generated by libsea.py'')\<rparr>;
          node_order = fst (scan_nodes graph)
      in if length node_order \<noteq> length (graph_nodes graph)
         then Inl (Exception ''Node collision'')
         else
           (case scan_edges graph of
              Inl e \<Rightarrow> Inl e
            | Inr (lnks, attrs) \<Rightarrow>
               spanning_tree (materialize attrs (LibSea\<lparr>nodes := node_order, links := lnks\<rparr>))))"

section \<open>Notions used in the statements\<close>

text \<open>What \<^verbatim>\<open>_indent\<close> does to one line.\<close>

definition indent_line :: "int \<Rightarrow> string \<Rightarrow> string" where
  "indent_line amount line = (if line = [] then [] else replicate (nat amount) CHR '' '' @ line)"


text \<open>
  The rendering of a text as the specification words it: in double quotes, every
  occurrence of one of the eight characters preceded by exactly one backslash, in a single
  pass over the text.
\<close>

definition spec_render_text :: "string \<Rightarrow> string" where
  "spec_render_text s =
     [DQ] @ concat (map (\<lambda>c. if c \<in> {BSL, DQ, NL, CR, TAB, FF, BS, BAR} then [BSL, c] else [c]) s)
       @ [DQ]"

text \<open>
  The contract of the docstring of \<^verbatim>\<open>Element.serialize\<close>: a rendered text has no
  newline at either end and does not end in the terminator.
\<close>

definition well_ended :: "string \<Rightarrow> bool" where
  "well_ended t = (t = [] \<or> (hd t \<noteq> NL \<and> last t \<noteq> NL \<and> last t \<noteq> CHR '';''))"


text \<open>The entry \<^verbatim>\<open>attributes[nm][kind][i]\<close> of the local table of \<^verbatim>\<open>from_graph\<close>.\<close>

definition bucket_get :: "buckets \<Rightarrow> string \<Rightarrow> string \<Rightarrow> nat \<Rightarrow> pyval option" where
  "bucket_get attrs nm kind i =
     (case map_of attrs nm of
        None \<Rightarrow> None
      | Some data \<Rightarrow> (case map_of data kind of None \<Rightarrow> None | Some vals \<Rightarrow> map_of vals i))"


text \<open>The attribute names found on any node or edge of a graph.\<close>

definition attribute_names :: "'n ext_graph \<Rightarrow> string set" where
  "attribute_names g =
     (\<Union>n \<in> set (graph_nodes g). fst ` set (node_attr n)) \<union>
     (\<Union>e \<in> set (graph_edges g). fst ` set (edge_attr e))"

text \<open>
  The document \<^verbatim>\<open>from_graph\<close> has built when it reaches line 322, from the links and
  the attribute table the scanning loops have left.
\<close>

definition pre_document :: "'n ext_graph \<Rightarrow> pyval list \<Rightarrow> buckets \<Rightarrow> 'n Graph" where
  "pre_document g lnks attrs =
     \<lparr>name = dict_get (graph_attr g) ''name'' ''Graph'',
      description = Some (dict_get (graph_attr g) ''description'' ''Generated by libsea.py''),
      nodes = zip (map node_id (graph_nodes g)) [0 ..< length (graph_nodes g)],
      links = lnks, paths = [], enums = [],
      attributes = map (make_attr attrs) (map fst attrs),
      attribute_order = zip (map fst attrs) [0 ..< length attrs],
      qualifiers = []\<rparr>"

text \<open>Every end point of every edge is a node of the graph.\<close>

definition endpoints_known :: "'n ext_graph \<Rightarrow> bool" where
  "endpoints_known g =
     list_all (\<lambda>e. edge_0 e \<in> node_id ` set (graph_nodes g) \<and>
                    edge_1 e \<in> node_id ` set (graph_nodes g)) (graph_edges g)"

text \<open>
  Concrete graphs used to instantiate the theorems: three nodes and two edges with both
  well-known attributes; two nodes and an edge without \<^verbatim>\<open>tree_link\<close>; the same
  without \<^verbatim>\<open>root\<close>; a graph that lists one node twice; and three nodes and two
  edges that carry no attribute at all.
\<close>

definition example_graph :: "string ext_graph" where
  "example_graph =
     \<lparr>graph_attr = [(''name'', ''demo'')],
      graph_nodes =
        [\<lparr>node_id = ''a'', node_attr = [(''root'', ''True'')]\<rparr>,
         \<lparr>node_id = ''b'', node_attr = [(''root'', ''False'')]\<rparr>,
         \<lparr>node_id = ''c'', node_attr = [(''root'', ''False''), (''color'', ''red'')]\<rparr>],
      graph_edges =
        [\<lparr>edge_0 = ''a'', edge_1 = ''b'', edge_attr = [(''tree_link'', ''True'')]\<rparr>,
         \<lparr>edge_0 = ''a'', edge_1 = ''c'', edge_attr = [(''tree_link'', ''True'')]\<rparr>]\<rparr>"

definition no_tree_link_graph :: "string ext_graph" where
  "no_tree_link_graph =
     \<lparr>graph_attr = [],
      graph_nodes =
        [\<lparr>node_id = ''a'', node_attr = [(''root'', ''True'')]\<rparr>,
         \<lparr>node_id = ''b'', node_attr = [(''root'', ''False'')]\<rparr>],
      graph_edges = [\<lparr>edge_0 = ''a'', edge_1 = ''b'', edge_attr = []\<rparr>]\<rparr>"

definition no_root_graph :: "string ext_graph" where
  "no_root_graph =
     \<lparr>graph_attr = [],
      graph_nodes =
        [\<lparr>node_id = ''a'', node_attr = []\<rparr>, \<lparr>node_id = ''b'', node_attr = []\<rparr>],
      graph_edges = [\<lparr>edge_0 = ''a'', edge_1 = ''b'', edge_attr = [(''tree_link'', ''True'')]\<rparr>]\<rparr>"

definition collision_graph :: "string ext_graph" where
  "collision_graph =
     \<lparr>graph_attr = [],
      graph_nodes =
        [\<lparr>node_id = ''a'', node_attr = [(''root'', ''True'')]\<rparr>,
         \<lparr>node_id = ''a'', node_attr = [(''root'', ''True'')]\<rparr>],
      graph_edges = []\<rparr>"

definition bare_graph :: "string ext_graph" where
  "bare_graph =
     \<lparr>graph_attr = [],
      graph_nodes =
        [\<lparr>node_id = ''a'', node_attr = []\<rparr>,
         \<lparr>node_id = ''b'', node_attr = []\<rparr>,
         \<lparr>node_id = ''c'', node_attr = []\<rparr>],
      graph_edges =
        [\<lparr>edge_0 = ''a'', edge_1 = ''b'', edge_attr = []\<rparr>,
         \<lparr>edge_0 = ''b'', edge_1 = ''c'', edge_attr = []\<rparr>]\<rparr>"

section \<open>Lines and indentation\<close>

lemma split_not_Nil: "split sep s \<noteq> []"
  by (induction s) (auto split: list.splits)

lemma join_Cons: "ls \<noteq> [] \<Longrightarrow> join sep (l # ls) = l @ sep @ join sep ls"
  by (cases ls) simp_all

lemma join_split: "join [sep] (split sep s) = s"
proof (induction s)
  case Nil
  show ?case by simp
next
  case (Cons c cs)
  show ?case
  proof (cases "c = sep")
    case True
    with Cons show ?thesis by (simp add: join_Cons split_not_Nil)
  next
    case False
    obtain l ls where eq: "split sep cs = l # ls"
      using split_not_Nil [of sep cs] by (cases "split sep cs") auto
    have "join [sep] ((c # l) # ls) = c # join [sep] (l # ls)"
      by (cases ls) simp_all
    with False eq Cons show ?thesis by simp
  qed
qed

lemma split_append_sep:
  "sep \<notin> set l \<Longrightarrow> split sep (l @ sep # s) = l # split sep s"
  by (induction l) auto

lemma split_no_sep: "sep \<notin> set l \<Longrightarrow> split sep l = [l]"
  by (induction l) auto

lemma split_join:
  "ls \<noteq> [] \<Longrightarrow> \<forall>l \<in> set ls. sep \<notin> set l \<Longrightarrow> split sep (join [sep] ls) = ls"
proof (induction ls)
  case Nil
  then show ?case by simp
next
  case (Cons x xs)
  show ?case
  proof (cases xs)
    case Nil
    with Cons.prems show ?thesis by (simp add: split_no_sep)
  next
    case (Cons y ys)
    with Cons.IH Cons.prems have "split sep (join [sep] xs) = xs" by simp
    with Cons Cons.prems show ?thesis
      using split_append_sep [of sep x "join [sep] xs"] by simp
  qed
qed

lemma split_lines_no_sep: "l \<in> set (split sep s) \<Longrightarrow> sep \<notin> set l"
proof (induction s arbitrary: l)
  case Nil
  then show ?case by simp
next
  case (Cons c cs)
  obtain l' ls where eq: "split sep cs = l' # ls"
    using split_not_Nil [of sep cs] by (cases "split sep cs") auto
  show ?case
  proof (cases "c = sep")
    case True
    with Cons show ?thesis by auto
  next
    case False
    with Cons.prems eq have "l = c # l' \<or> l \<in> set ls" by auto
    then show ?thesis
    proof
      assume "l = c # l'"
      moreover have "sep \<notin> set l'" using Cons.IH [of l'] eq by simp
      ultimately show ?thesis using False by auto
    next
      assume "l \<in> set ls"
      then show ?thesis using Cons.IH [of l] eq by simp
    qed
  qed
qed

lemma indent_text_eq: "indent_text s n = join [NL] (map (indent_line n) (split NL s))"
proof (cases "n = 0")
  case True
  have "map (indent_line 0) (split NL s) = split NL s"
    by (induction "split NL s") (auto simp: indent_line_def map_idI)
  then show ?thesis using True by (simp add: indent_text_def join_split)
next
  case False
  have "(\<lambda>line. if line \<noteq> [] then replicate (nat n) CHR '' '' @ line else line) = indent_line n"
    by (auto simp: indent_line_def fun_eq_iff)
  then show ?thesis using False by (simp add: indent_text_def)
qed

lemma split_indent_text: "split NL (indent_text s n) = map (indent_line n) (split NL s)"
proof -
  have "\<forall>l \<in> set (map (indent_line n) (split NL s)). NL \<notin> set l"
    by (auto simp: indent_line_def dest: split_lines_no_sep)
  then show ?thesis
    unfolding indent_text_eq by (intro split_join) (simp_all add: split_not_Nil)
qed



lemma indent_text_one_line:
  "NL \<notin> set l \<Longrightarrow> indent_text l n = indent_line n l"
  by (simp add: indent_text_eq split_no_sep)

lemma indent_text_first_line:
  assumes "NL \<notin> set l"
  shows "indent_text (l @ NL # rest) n = indent_line n l @ NL # indent_text rest n"
proof -
  have "split NL (l @ NL # rest) = l # split NL rest"
    using assms by (rule split_append_sep)
  moreover have "map (indent_line n) (split NL rest) \<noteq> []"
    by (simp add: split_not_Nil)
  ultimately show ?thesis
    by (simp add: indent_text_eq join_Cons)
qed

lemma indent_text_example:
  "indent_text (''a'' @ [NL, NL] @ ''bc'' @ [NL]) 4 = ''    a'' @ [NL, NL] @ ''    bc'' @ [NL]"
  by code_simp

text \<open>
  Claim C6.  Indenting by 0 returns the text unchanged.  For every amount \<open>n\<close>, a text
  is indented line by line: a text without a newline is prefixed by \<open>n\<close> spaces when
  it is not empty and left empty when it is; a text that starts with a line \<open>l\<close>, a
  newline and a rest is that line so treated, the newline, and the rest indented.  So
  every non-empty line gets exactly \<open>n\<close> spaces and every empty line stays as it is
  (\<open>nat n\<close> is \<open>n\<close> for an amount that is not negative).  The lines of the result,
  as \<^verbatim>\<open>split('\n')\<close> gives them, are the lines of the text so treated; and the four
  lines \<^verbatim>\<open>a\<close>, empty, \<^verbatim>\<open>bc\<close>, empty at 4 become \<^verbatim>\<open>    a\<close>, empty,
  \<^verbatim>\<open>    bc\<close>, empty.
\<close>

theorem indent_text_lines:
  "indent_text s 0 = s \<and>
   (NL \<notin> set l \<longrightarrow>
      indent_text l n = (if l = [] then [] else replicate (nat n) CHR '' '' @ l)) \<and>
   (NL \<notin> set l \<longrightarrow>
      indent_text (l @ NL # rest) n =
        (if l = [] then [] else replicate (nat n) CHR '' '' @ l) @ NL # indent_text rest n) \<and>
   split NL (indent_text s n) =
     map (\<lambda>line. if line = [] then [] else replicate (nat n) CHR '' '' @ line) (split NL s) \<and>
   indent_text (''a'' @ [NL, NL] @ ''bc'' @ [NL]) 4 = ''    a'' @ [NL, NL] @ ''    bc'' @ [NL]"
proof (intro conjI impI)
  show "indent_text s 0 = s" by (simp add: indent_text_def)
next
  assume "NL \<notin> set l"
  then show "indent_text l n = (if l = [] then [] else replicate (nat n) CHR '' '' @ l)"
    by (simp add: indent_text_one_line indent_line_def)
next
  assume "NL \<notin> set l"
  then show "indent_text (l @ NL # rest) n =
        (if l = [] then [] else replicate (nat n) CHR '' '' @ l) @ NL # indent_text rest n"
    by (simp add: indent_text_first_line indent_line_def)
next
  show "split NL (indent_text s n) =
     map (\<lambda>line. if line = [] then [] else replicate (nat n) CHR '' '' @ line) (split NL s)"
    unfolding split_indent_text by (simp add: indent_line_def [abs_def])
next
  show "indent_text (''a'' @ [NL, NL] @ ''bc'' @ [NL]) 4 = ''    a'' @ [NL, NL] @ ''    bc'' @ [NL]"
    by (rule indent_text_example)
qed

theorem indent_text_lines_witness:
  "indent_text (''ab'' @ NL # ''c'') 2 = ''  ab'' @ NL # ''  c'' \<and>
   indent_text (NL # ''c'') 2 = NL # ''  c''"
proof -
  have c: "NL \<notin> set ''c''" and ab: "NL \<notin> set ''ab''" and e: "NL \<notin> set []"
    by simp_all
  have r: "replicate (nat 2) CHR '' '' = ''  ''" by (simp add: eval_nat_numeral)
  from indent_text_lines [of _ "''c''" 2, THEN conjunct2, THEN conjunct1, rule_format, OF c]
  have 1: "indent_text ''c'' 2 = ''  c''" unfolding r by simp
  from indent_text_lines [of _ "''ab''" 2 "''c''", THEN conjunct2, THEN conjunct2, THEN conjunct1,
      rule_format, OF ab]
  have 2: "indent_text (''ab'' @ NL # ''c'') 2 = ''  ab'' @ NL # ''  c''" unfolding r 1 by simp
  from indent_text_lines [of _ "[]" 2 "''c''", THEN conjunct2, THEN conjunct2, THEN conjunct1,
      rule_format, OF e]
  have 3: "indent_text (NL # ''c'') 2 = NL # ''  c''" unfolding 1 by simp
  from 2 3 show ?thesis by blast
qed

section \<open>Rendering a text\<close>

lemma indent_text_0 [simp]: "indent_text s 0 = s"
  by (simp add: indent_text_def)

lemma indentable_0 [simp]: "indentable s 0 = s"
  by (simp add: indentable_def)

lemma serialize_0: "serialize e labels 0 = serialize_body e labels"
  by simp

lemma replace_absent: "old \<notin> set s \<Longrightarrow> replace old new s = s"
  by (induction s) (auto simp: replace_def)

lemma String_init_plain: "NL \<notin> set s \<Longrightarrow> CR \<notin> set s \<Longrightarrow> String_init s = String s"
  by (simp add: String_init_def replace_absent)

lemma String_no_newline_as_specified:
  assumes "NL \<notin> set s" "CR \<notin> set s"
  shows "serialize (String_init s) labels 0 = spec_render_text s"
proof -
  have "(\<lambda>c. if c \<in> set escaped_chars then [BSL, c] else [c]) =
        (\<lambda>c. if c \<in> {BSL, DQ, NL, CR, TAB, FF, BS, BAR} then [BSL, c] else [c])"
    by (simp add: escaped_chars_def)
  then show ?thesis
    using assms
    by (simp add: String_init_plain String_serialize_def re_sub_escape_def spec_render_text_def)
qed

text \<open>
  Claim C1 (the code differs).  A text that holds a newline is rendered with two
  backslashes before the letter \<open>n\<close>: the constructor has already turned the newline
  into a backslash and a letter, and the rendering escapes that backslash again.  The
  same happens to a carriage return.  The result is neither the newline behind one
  backslash nor the letter behind one backslash.
\<close>

theorem String_newline_escaped_twice:
  "serialize (String_init [NL]) False 0 = [DQ, BSL, BSL, CHR ''n'', DQ] \<and>
   serialize (String_init [NL]) True 0 = [DQ, BSL, BSL, CHR ''n'', DQ] \<and>
   serialize (String_init [CR]) False 0 = [DQ, BSL, BSL, CHR ''r'', DQ] \<and>
   serialize (String_init [NL]) False 0 \<noteq> spec_render_text [NL] \<and>
   serialize (String_init [NL]) False 0 \<noteq> [DQ, BSL, CHR ''n'', DQ] \<and>
   spec_render_text [NL] = [DQ, BSL, NL, DQ]"
  by (simp add: String_init_def String_serialize_def replace_def re_sub_escape_def
      escaped_chars_def spec_render_text_def)

section \<open>Lists\<close>

lemma List_empty: "serialize (List []) labels 0 = [CHR ''['', NL, NL, CHR '']'']"
  by (simp add: serialize_0)

lemma print_var_paths_empty:
  "print_var ''paths'' (PList []) labels 4 =
     ''    '' @ label ''paths'' labels @ [CHR ''['', NL, NL] @ ''    ];'' @ [NL]"
  by (cases labels) (simp_all add: print_var_def indentable_def indent_text_def label_def
    Element_TERM_def eval_nat_numeral)








section \<open>Dictionaries and the scanning loops\<close>

lemma map_of_dict_set: "map_of (dict_set d k v) = (map_of d)(k \<mapsto> v)"
  by (induction d k v rule: dict_set.induct) (auto simp: fun_eq_iff)

lemma dict_set_absent: "k \<notin> fst ` set d \<Longrightarrow> dict_set d k v = d @ [(k, v)]"
  by (induction d k v rule: dict_set.induct) auto

lemma dict_set_keys_present: "k \<in> fst ` set d \<Longrightarrow> map fst (dict_set d k v) = map fst d"
  by (induction d k v rule: dict_set.induct) (auto simp: rev_image_eqI)

lemma dict_set_key_set: "fst ` set (dict_set d k v) = insert k (fst ` set d)"
  by (induction d k v rule: dict_set.induct) auto

lemma dict_set_distinct: "distinct (map fst d) \<Longrightarrow> distinct (map fst (dict_set d k v))"
  by (cases "k \<in> fst ` set d") (simp_all add: dict_set_keys_present dict_set_absent)

lemma bucket_get_store:
  "bucket_get (store A n k i v) n' k' i' =
     (if n' = n \<and> k' = k \<and> i' = i then Some v else bucket_get A n' k' i')"
  by (auto simp: bucket_get_def store_def dict_get_def map_of_dict_set Let_def
      split: option.splits)

lemma store_key_set: "fst ` set (store A n k i v) = insert n (fst ` set A)"
  by (simp add: store_def Let_def dict_set_key_set)

lemma store_distinct: "distinct (map fst A) \<Longrightarrow> distinct (map fst (store A n k i v))"
  by (simp add: store_def Let_def dict_set_distinct)

lemma fold_store_get:
  "bucket_get (fold (\<lambda>nm acc. store acc nm kind i (f nm)) ks A) n' k' i' =
     (if k' = kind \<and> i' = i \<and> n' \<in> set ks then Some (f n') else bucket_get A n' k' i')"
  by (induction ks arbitrary: A) (auto simp: bucket_get_store)

lemma fold_store_keys:
  "fst ` set (fold (\<lambda>nm acc. store acc nm kind i (f nm)) ks A) = set ks \<union> fst ` set A"
  by (induction ks arbitrary: A) (auto simp: store_key_set)

lemma fold_store_distinct:
  "distinct (map fst A) \<Longrightarrow> distinct (map fst (fold (\<lambda>nm acc. store acc nm kind i (f nm)) ks A))"
  by (induction ks arbitrary: A) (auto simp: store_distinct)

lemma attr_loop_get:
  "bucket_get (attr_loop attr kind i A) n' k' i' =
     (if k' = kind \<and> i' = i \<and> n' \<in> fst ` set attr
      then Some (attr_value (dict_get attr n' [])) else bucket_get A n' k' i')"
  unfolding attr_loop_def by (simp add: fold_store_get)

lemma attr_loop_keys: "fst ` set (attr_loop attr kind i A) = fst ` set attr \<union> fst ` set A"
  unfolding attr_loop_def by (simp add: fold_store_keys)

lemma attr_loop_distinct: "distinct (map fst A) \<Longrightarrow> distinct (map fst (attr_loop attr kind i A))"
  unfolding attr_loop_def by (rule fold_store_distinct)

lemma node_loop_get:
  "bucket_get (snd (node_loop i ns (no, A))) n' k' i' =
     (if k' = ''nodeValues'' \<and> i \<le> i' \<and> i' < i + length ns \<and>
         n' \<in> fst ` set (node_attr (ns ! (i' - i)))
      then Some (attr_value (dict_get (node_attr (ns ! (i' - i))) n' []))
      else bucket_get A n' k' i')"
proof (induction ns arbitrary: i no A)
  case Nil
  show ?case by auto
next
  case (Cons node rest)
  show ?case by (auto simp: Cons.IH attr_loop_get nth_Cons')
qed

lemma node_loop_keys:
  "fst ` set (snd (node_loop i ns (no, A))) =
     (\<Union>n \<in> set ns. fst ` set (node_attr n)) \<union> fst ` set A"
  by (induction ns arbitrary: i no A) (auto simp: attr_loop_keys)

lemma node_loop_distinct:
  "distinct (map fst A) \<Longrightarrow> distinct (map fst (snd (node_loop i ns (no, A))))"
  by (induction ns arbitrary: i no A) (auto simp: attr_loop_distinct)

lemma node_loop_order_keys:
  "fst ` set (fst (node_loop i ns (no, A))) = node_id ` set ns \<union> fst ` set no"
  by (induction ns arbitrary: i no A) (auto simp: dict_set_key_set)

lemma node_loop_order_distinct:
  "distinct (map fst no) \<Longrightarrow> distinct (map fst (fst (node_loop i ns (no, A))))"
  by (induction ns arbitrary: i no A) (auto simp: dict_set_distinct)

lemma node_loop_order_fresh:
  "distinct (map fst no @ map node_id ns) \<Longrightarrow>
   fst (node_loop i ns (no, A)) = no @ zip (map node_id ns) [i ..< i + length ns]"
proof (induction ns arbitrary: i no A)
  case Nil
  show ?case by simp
next
  case (Cons node rest)
  then have fresh: "node_id node \<notin> fst ` set no" by auto
  have "distinct (map fst (no @ [(node_id node, i)]) @ map node_id rest)"
    using Cons.prems by auto
  then have "fst (node_loop (Suc i) rest (no @ [(node_id node, i)], attr_loop (node_attr node) ''nodeValues'' i A))
      = (no @ [(node_id node, i)]) @ zip (map node_id rest) [Suc i ..< Suc i + length rest]"
    by (rule Cons.IH)
  moreover have "[i ..< i + length (node # rest)] = i # [Suc i ..< Suc i + length rest]"
    by (simp add: upt_conv_Cons del: upt_Suc)
  ultimately show ?case using fresh by (simp add: dict_set_absent del: upt_Suc)
qed

lemma scan_nodes_length:
  "length (fst (scan_nodes g)) = card (node_id ` set (graph_nodes g))"
proof -
  have "distinct (map fst (fst (scan_nodes g)))"
    unfolding scan_nodes_def by (rule node_loop_order_distinct) simp
  then have "length (fst (scan_nodes g)) = card (fst ` set (fst (scan_nodes g)))"
    by (metis distinct_card length_map set_map)
  then show ?thesis by (simp add: scan_nodes_def node_loop_order_keys)
qed

lemma collision_iff:
  "length (fst (scan_nodes g)) \<noteq> length (graph_nodes g) \<longleftrightarrow>
     \<not> distinct (map node_id (graph_nodes g))"
  using card_distinct [of "map node_id (graph_nodes g)"]
        distinct_card [of "map node_id (graph_nodes g)"]
  by (auto simp: scan_nodes_length)

lemma scan_nodes_distinct:
  "distinct (map node_id (graph_nodes g)) \<Longrightarrow>
   fst (scan_nodes g) = zip (map node_id (graph_nodes g)) [0 ..< length (graph_nodes g)]"
  unfolding scan_nodes_def using node_loop_order_fresh [of "[]" "graph_nodes g" 0] by simp

lemma edge_loop_Inr:
  "edge_loop no i es (lnks, A) = Inr (lnks', A') \<Longrightarrow>
     lnks' = lnks @ map (\<lambda>e. Link (the (map_of no (edge_0 e))) (the (map_of no (edge_1 e)))) es \<and>
     (\<forall>e \<in> set es. edge_0 e \<in> fst ` set no \<and> edge_1 e \<in> fst ` set no) \<and>
     fst ` set A' = (\<Union>e \<in> set es. fst ` set (edge_attr e)) \<union> fst ` set A \<and>
     (distinct (map fst A) \<longrightarrow> distinct (map fst A'))"
proof (induction es arbitrary: i lnks A)
  case Nil
  then show ?case by simp
next
  case (Cons edge rest)
  from Cons.prems obtain id1 id2 where
    ids: "map_of no (edge_0 edge) = Some id1" "map_of no (edge_1 edge) = Some id2"
    and rest: "edge_loop no (Suc i) rest
        (lnks @ [Link id1 id2], attr_loop (edge_attr edge) ''linkValues'' i A) = Inr (lnks', A')"
    by (auto split: option.splits)
  from ids have "edge_0 edge \<in> fst ` set no" "edge_1 edge \<in> fst ` set no"
    by (auto dest!: map_of_SomeD intro: rev_image_eqI)
  with Cons.IH [OF rest] ids show ?case
    by (auto simp: attr_loop_keys attr_loop_distinct)
qed

lemma edge_loop_get:
  "edge_loop no i es (lnks, A) = Inr (lnks', A') \<Longrightarrow>
   bucket_get A' n' k' i' =
     (if k' = ''linkValues'' \<and> i \<le> i' \<and> i' < i + length es \<and>
         n' \<in> fst ` set (edge_attr (es ! (i' - i)))
      then Some (attr_value (dict_get (edge_attr (es ! (i' - i))) n' []))
      else bucket_get A n' k' i')"
proof (induction es arbitrary: i lnks A)
  case Nil
  then show ?case by auto
next
  case (Cons edge rest)
  from Cons.prems obtain id1 id2 where
    rest: "edge_loop no (Suc i) rest
        (lnks @ [Link id1 id2], attr_loop (edge_attr edge) ''linkValues'' i A) = Inr (lnks', A')"
    by (auto split: option.splits)
  show ?case by (auto simp: Cons.IH [OF rest] attr_loop_get nth_Cons')
qed

lemma map_of_key: "k \<in> fst ` set d \<Longrightarrow> \<exists>v. map_of d k = Some v"
  by (cases "map_of d k") (simp_all add: map_of_eq_None_iff)

lemma edge_loop_total:
  "\<forall>e \<in> set es. edge_0 e \<in> fst ` set no \<and> edge_1 e \<in> fst ` set no \<Longrightarrow>
   \<exists>r. edge_loop no i es st = Inr r"
proof (induction es arbitrary: i st)
  case Nil
  show ?case by simp
next
  case (Cons edge rest)
  obtain lnks A where st: "st = (lnks, A)" by (cases st)
  from Cons.prems obtain id1 id2 where
    "map_of no (edge_0 edge) = Some id1" "map_of no (edge_1 edge) = Some id2"
    using map_of_key [of "edge_0 edge" no] map_of_key [of "edge_1 edge" no] by auto
  with Cons show ?case by (simp add: st)
qed

lemma definition_loop_fresh:
  "distinct nms \<Longrightarrow> set nms \<inter> fst ` set order = {} \<Longrightarrow>
   definition_loop attrs i nms (defs, order) =
     (defs @ map (make_attr attrs) nms, order @ zip nms [i ..< i + length nms])"
proof (induction nms arbitrary: i defs order)
  case Nil
  show ?case by simp
next
  case (Cons nm rest)
  have "[i ..< i + length (nm # rest)] = i # [Suc i ..< Suc i + length rest]"
    by (simp add: upt_conv_Cons del: upt_Suc)
  moreover have "set rest \<inter> fst ` set (order @ [(nm, i)]) = {}"
    using Cons.prems by auto
  moreover have "dict_set order nm i = order @ [(nm, i)]"
    using Cons.prems by (intro dict_set_absent) auto
  ultimately show ?case using Cons.prems Cons.IH [of "order @ [(nm, i)]"]
    by (simp del: upt_Suc)
qed

section \<open>The stages of the assembly\<close>

lemma zip_index_Some:
  "map_of (zip nms [0 ..< length nms]) k = Some r \<Longrightarrow> r < length nms \<and> nms ! r = k"
proof -
  assume "map_of (zip nms [0 ..< length nms]) k = Some r"
  then have "(k, r) \<in> set (zip nms [0 ..< length nms])" by (rule map_of_SomeD)
  then obtain i where "nms ! i = k" "[0 ..< length nms] ! i = r" "i < length nms"
    by (auto simp: in_set_zip)
  then show ?thesis by simp
qed

lemma zip_index_iff:
  "(k \<in> set nms) = (\<exists>r. map_of (zip nms [0 ..< length nms]) k = Some r)"
  by (rule map_of_zip_is_Some) simp

lemma zip_index_None:
  assumes "k \<notin> set nms"
  shows "map_of (zip nms [0 ..< length nms]) k = None"
proof (cases "map_of (zip nms [0 ..< length nms]) k")
  case None
  then show ?thesis .
next
  case (Some r)
  then have "\<exists>r. map_of (zip nms [0 ..< length nms]) k = Some r" by (rule exI)
  then have "k \<in> set nms" by (simp only: zip_index_iff)
  with assms show ?thesis by contradiction
qed

lemma zip_index_present:
  "k \<in> set nms \<Longrightarrow> \<exists>r. map_of (zip nms [0 ..< length nms]) k = Some r"
  by (simp only: zip_index_iff)

lemma scan_nodes_attrs:
  "distinct (map fst (snd (scan_nodes g)))"
  "fst ` set (snd (scan_nodes g)) = (\<Union>n \<in> set (graph_nodes g). fst ` set (node_attr n))"
  unfolding scan_nodes_def by (simp_all add: node_loop_distinct node_loop_keys)

lemma scan_edges_attrs:
  assumes "scan_edges g = Inr (lnks, attrs)"
  shows "distinct (map fst attrs)" and "fst ` set attrs = attribute_names g"
  using edge_loop_Inr [OF assms [unfolded scan_edges_def]] scan_nodes_attrs [of g]
  by (auto simp: attribute_names_def)

lemma materialize_fresh:
  "distinct (map fst attrs) \<Longrightarrow> attributes L = [] \<Longrightarrow> attribute_order L = [] \<Longrightarrow>
   materialize attrs L =
     L\<lparr>attributes := map (make_attr attrs) (map fst attrs),
       attribute_order := zip (map fst attrs) [0 ..< length attrs]\<rparr>"
  using definition_loop_fresh [of "map fst attrs" "[]" attrs 0 "[]"]
  by (simp add: materialize_def)

lemma spanning_tree_no_root:
  "attribute_order L = zip nms [0 ..< length nms] \<Longrightarrow> ''root'' \<notin> set nms \<Longrightarrow>
   spanning_tree L = Inl (KeyError ''root'')"
  by (simp add: spanning_tree_def zip_index_None)

lemma spanning_tree_no_tree_link:
  assumes "attribute_order L = zip nms [0 ..< length nms]" "length (attributes L) = length nms"
    and "''root'' \<in> set nms" "''tree_link'' \<notin> set nms"
  shows "spanning_tree L = Inl (KeyError ''tree_link'')"
proof -
  from zip_index_present [OF assms(3)]
  obtain r where r: "map_of (zip nms [0 ..< length nms]) ''root'' = Some r" ..
  have rl: "r < length (attributes L)" using zip_index_Some [OF r] assms(2) by simp
  have tl: "map_of (attribute_order L) ''tree_link'' = None"
    unfolding assms(1) using assms(4) by (rule zip_index_None)
  have rt: "map_of (attribute_order L) ''root'' = Some r"
    unfolding assms(1) by (rule r)
  show ?thesis unfolding spanning_tree_def rt tl set_type_def using rl by simp
qed

lemma spanning_tree_ok:
  assumes "attribute_order L = zip nms [0 ..< length nms]" "length (attributes L) = length nms"
    and "map_of (zip nms [0 ..< length nms]) ''root'' = Some r"
    and "map_of (zip nms [0 ..< length nms]) ''tree_link'' = Some t"
  shows "spanning_tree L =
     Inr (L\<lparr>attributes :=
              (attributes L)[r := dict_set (attributes L ! r) ''type'' bool_tag,
                             t := dict_set ((attributes L)[r := dict_set (attributes L ! r) ''type'' bool_tag] ! t) ''type'' bool_tag],
            qualifiers := qualifiers L @ [spanning_tree_qualifier r t]\<rparr>)"
proof -
  have "r < length nms" "t < length nms"
    using assms(3,4) by (auto dest: zip_index_Some)
  then show ?thesis using assms
    by (simp add: spanning_tree_def set_type_def)
qed

lemma from_graph_collision:
  "\<not> distinct (map node_id (graph_nodes g)) \<Longrightarrow> from_graph g = Inl (Exception ''Node collision'')"
  using collision_iff [of g] by (simp add: from_graph_def Let_def)

lemma from_graph_edges_fail:
  "distinct (map node_id (graph_nodes g)) \<Longrightarrow> scan_edges g = Inl e \<Longrightarrow> from_graph g = Inl e"
  using collision_iff [of g] by (simp add: from_graph_def Let_def)

lemma from_graph_stage:
  assumes "distinct (map node_id (graph_nodes g))" "scan_edges g = Inr (lnks, attrs)"
  shows "from_graph g = spanning_tree (pre_document g lnks attrs)"
proof -
  have len: "length (fst (scan_nodes g)) = length (graph_nodes g)"
    using collision_iff [of g] assms(1) by simp
  have "materialize attrs
          (Graph_init ''Graph''
            \<lparr>name := dict_get (graph_attr g) ''name'' ''Graph'',
             description := Some (dict_get (graph_attr g) ''description'' ''Generated by libsea.py''),
             nodes := fst (scan_nodes g), links := lnks\<rparr>) = pre_document g lnks attrs"
    using scan_edges_attrs(1) [OF assms(2)] scan_nodes_distinct [OF assms(1)]
    by (simp add: materialize_fresh Graph_init_def pre_document_def)
  then show ?thesis using len assms(2) by (simp add: from_graph_def Let_def)
qed

lemma edge_loop_Inl: "edge_loop no i es st = Inl e \<Longrightarrow> \<exists>k. e = KeyError_node k"
proof (induction es arbitrary: i st)
  case Nil
  then show ?case by simp
next
  case (Cons edge rest)
  obtain lnks A where st: "st = (lnks, A)" by (cases st)
  from Cons.prems Cons.IH show ?case
    unfolding st by (auto split: option.splits)
qed

lemma spanning_tree_Inl:
  "spanning_tree L = Inl e \<Longrightarrow> e = KeyError ''root'' \<or> e = KeyError ''tree_link'' \<or> e = IndexError"
  by (auto simp: spanning_tree_def set_type_def split: option.splits if_splits)

lemma scan_edges_total:
  assumes "endpoints_known g"
  shows "\<exists>lnks attrs. scan_edges g = Inr (lnks, attrs)"
proof -
  have "fst ` set (fst (scan_nodes g)) = node_id ` set (graph_nodes g)"
    unfolding scan_nodes_def by (simp add: node_loop_order_keys)
  with assms have "\<forall>e \<in> set (graph_edges g).
      edge_0 e \<in> fst ` set (fst (scan_nodes g)) \<and> edge_1 e \<in> fst ` set (fst (scan_nodes g))"
    by (simp add: endpoints_known_def list_all_iff)
  from edge_loop_total [OF this] obtain r where
    "edge_loop (fst (scan_nodes g)) 0 (graph_edges g) ([], snd (scan_nodes g)) = Inr r"
    by blast
  then show ?thesis unfolding scan_edges_def by (cases r) auto
qed

lemma pre_document_shape:
  "attribute_order (pre_document g lnks attrs) = zip (map fst attrs) [0 ..< length (map fst attrs)]"
  "length (attributes (pre_document g lnks attrs)) = length (map fst attrs)"
  "qualifiers (pre_document g lnks attrs) = []"
  "attributes (pre_document g lnks attrs) = map (make_attr attrs) (map fst attrs)"
  by (simp_all add: pre_document_def)

lemma make_attr_name:
  "map_of (make_attr attrs nm) ''name'' = Some (PElem (Identifier (SStr nm)))"
  by (simp add: make_attr_def attributeDefinition_def map_of_dict_set Let_def)

lemma make_attr_type:
  "map_of (make_attr attrs nm) ''type'' = Some (PElem (Value (SStr ''string'')))"
  by (simp add: make_attr_def attributeDefinition_def map_of_dict_set Let_def)

lemma from_graph_ok:
  assumes dist: "distinct (map node_id (graph_nodes g))"
    and ends: "endpoints_known g"
    and root: "''root'' \<in> attribute_names g"
    and tl: "''tree_link'' \<in> attribute_names g"
  shows "\<exists>d r t. from_graph g = Inr d \<and>
           map_of (attribute_order d) ''root'' = Some r \<and>
           map_of (attribute_order d) ''tree_link'' = Some t \<and>
           r < length (attributes d) \<and> t < length (attributes d) \<and>
           map_of (attributes d ! r) ''name'' = Some (PElem (Identifier (SStr ''root''))) \<and>
           map_of (attributes d ! t) ''name'' = Some (PElem (Identifier (SStr ''tree_link''))) \<and>
           map_of (attributes d ! r) ''type'' = Some bool_tag \<and>
           map_of (attributes d ! t) ''type'' = Some bool_tag \<and>
           qualifiers d = [spanning_tree_qualifier r t]"
proof -
  from scan_edges_total [OF ends] obtain lnks attrs where se: "scan_edges g = Inr (lnks, attrs)"
    by blast
  let ?nms = "map fst attrs"
  let ?L = "pre_document g lnks attrs"
  have names: "set ?nms = attribute_names g" using scan_edges_attrs(2) [OF se] by simp
  from root names have "''root'' \<in> set ?nms" by simp
  from zip_index_present [OF this] obtain r where
    r: "map_of (zip ?nms [0 ..< length ?nms]) ''root'' = Some r" ..
  from tl names have "''tree_link'' \<in> set ?nms" by simp
  from zip_index_present [OF this] obtain t where
    t: "map_of (zip ?nms [0 ..< length ?nms]) ''tree_link'' = Some t" ..
  note rb = zip_index_Some [OF r] and tb = zip_index_Some [OF t]
  have rt: "r \<noteq> t" using rb tb by auto
  have rn: "fst (attrs ! r) = ''root''" using rb nth_map [of r attrs fst] by simp
  have tn: "fst (attrs ! t) = ''tree_link''" using tb nth_map [of t attrs fst] by simp
  let ?defs = "attributes ?L"
  let ?d = "?L\<lparr>attributes :=
              ?defs[r := dict_set (?defs ! r) ''type'' bool_tag,
                    t := dict_set (?defs[r := dict_set (?defs ! r) ''type'' bool_tag] ! t) ''type'' bool_tag],
            qualifiers := qualifiers ?L @ [spanning_tree_qualifier r t]\<rparr>"
  have st: "spanning_tree ?L = Inr ?d"
    by (rule spanning_tree_ok [OF pre_document_shape(1,2) r t])
  have fg: "from_graph g = Inr ?d" using from_graph_stage [OF dist se] st by simp
  have ar: "attributes ?d ! r = dict_set (make_attr attrs ''root'') ''type'' bool_tag"
    using rb tb rt rn tn by (simp add: pre_document_shape(4))
  have at: "attributes ?d ! t = dict_set (make_attr attrs ''tree_link'') ''type'' bool_tag"
    using rb tb rt rn tn by (simp add: pre_document_shape(4))
  have "map_of (attribute_order ?d) ''root'' = Some r"
    using r by (simp add: pre_document_shape(1))
  moreover have "map_of (attribute_order ?d) ''tree_link'' = Some t"
    using t by (simp add: pre_document_shape(1))
  moreover have "r < length (attributes ?d)" "t < length (attributes ?d)"
    using rb tb by (simp_all add: pre_document_shape(2))
  moreover have "map_of (attributes ?d ! r) ''name'' = Some (PElem (Identifier (SStr ''root'')))"
    unfolding ar by (simp add: map_of_dict_set make_attr_name)
  moreover have "map_of (attributes ?d ! t) ''name'' = Some (PElem (Identifier (SStr ''tree_link'')))"
    unfolding at by (simp add: map_of_dict_set make_attr_name)
  moreover have "map_of (attributes ?d ! r) ''type'' = Some bool_tag"
    unfolding ar by (simp add: map_of_dict_set)
  moreover have "map_of (attributes ?d ! t) ''type'' = Some bool_tag"
    unfolding at by (simp add: map_of_dict_set)
  moreover have "qualifiers ?d = [spanning_tree_qualifier r t]"
    by (simp add: pre_document_shape(3))
  ultimately show ?thesis using fg by blast
qed

section \<open>Properties of the assembled document\<close>

lemma from_graph_Inr:
  assumes "from_graph g = Inr d"
  shows "distinct (map node_id (graph_nodes g)) \<and>
         (\<exists>lnks attrs. scan_edges g = Inr (lnks, attrs) \<and>
            spanning_tree (pre_document g lnks attrs) = Inr d)"
proof -
  have dist: "distinct (map node_id (graph_nodes g))"
    using assms from_graph_collision [of g] by (cases "distinct (map node_id (graph_nodes g))") auto
  show ?thesis
  proof (cases "scan_edges g")
    case (Inl e)
    with dist assms show ?thesis by (simp add: from_graph_edges_fail)
  next
    case (Inr res)
    obtain lnks attrs where res: "res = (lnks, attrs)" by (cases res)
    with Inr dist assms show ?thesis by (simp add: from_graph_stage)
  qed
qed

lemma spanning_tree_keeps:
  "spanning_tree L = Inr d \<Longrightarrow>
     name d = name L \<and> description d = description L \<and> nodes d = nodes L \<and>
     links d = links L \<and> paths d = paths L \<and> enums d = enums L \<and>
     attribute_order d = attribute_order L"
  by (auto simp: spanning_tree_def set_type_def split: option.splits if_splits)

lemma from_graph_fields:
  assumes "from_graph g = Inr d"
  shows "name d = dict_get (graph_attr g) ''name'' ''Graph''"
    and "description d = Some (dict_get (graph_attr g) ''description'' ''Generated by libsea.py'')"
    and "nodes d = zip (map node_id (graph_nodes g)) [0 ..< length (graph_nodes g)]"
    and "paths d = []" and "enums d = []"
    and "\<exists>attrs. scan_edges g = Inr (links d, attrs)"
proof -
  from from_graph_Inr [OF assms] obtain lnks attrs where
    se: "scan_edges g = Inr (lnks, attrs)" and st: "spanning_tree (pre_document g lnks attrs) = Inr d"
    by blast
  note k = spanning_tree_keeps [OF st]
  show "name d = dict_get (graph_attr g) ''name'' ''Graph''" using k by (simp add: pre_document_def)
  show "description d = Some (dict_get (graph_attr g) ''description'' ''Generated by libsea.py'')"
    using k by (simp add: pre_document_def)
  show "nodes d = zip (map node_id (graph_nodes g)) [0 ..< length (graph_nodes g)]"
    using k by (simp add: pre_document_def)
  show "paths d = []" using k by (simp add: pre_document_def)
  show "enums d = []" using k by (simp add: pre_document_def)
  have "links d = lnks" using k by (simp add: pre_document_def)
  with se show "\<exists>attrs. scan_edges g = Inr (links d, attrs)" by blast
qed

text \<open>
  Claim C4.  Assembly fails with the node-collision error exactly when two nodes of the
  graph have the same identity; the number of identities recorded is the number of
  distinct ones; and a document that is returned numbers the nodes 0, 1, 2, ... in the
  order of iteration.
\<close>

theorem node_ids_dense_or_collision:
  "(from_graph g = Inl (Exception ''Node collision'') \<longleftrightarrow>
      length (fst (scan_nodes g)) \<noteq> length (graph_nodes g)) \<and>
   length (fst (scan_nodes g)) = card (node_id ` set (graph_nodes g)) \<and>
   (length (fst (scan_nodes g)) \<noteq> length (graph_nodes g) \<longleftrightarrow>
      \<not> distinct (map node_id (graph_nodes g))) \<and>
   (\<forall>d. from_graph g = Inr d \<longrightarrow>
      nodes d = zip (map node_id (graph_nodes g)) [0 ..< length (graph_nodes g)])"
proof (intro conjI allI impI)
  show "(from_graph g = Inl (Exception ''Node collision'')) =
        (length (fst (scan_nodes g)) \<noteq> length (graph_nodes g))"
  proof (cases "distinct (map node_id (graph_nodes g))")
    case False
    then show ?thesis using collision_iff [of g] by (simp add: from_graph_collision)
  next
    case True
    have "from_graph g \<noteq> Inl (Exception ''Node collision'')"
    proof (cases "scan_edges g")
      case (Inl e)
      then obtain k where "e = KeyError_node k"
        unfolding scan_edges_def by (auto dest: edge_loop_Inl)
      with True Inl show ?thesis by (simp add: from_graph_edges_fail)
    next
      case (Inr res)
      obtain lnks attrs where res: "res = (lnks, attrs)" by (cases res)
      show ?thesis
        using from_graph_stage [OF True Inr [unfolded res]]
          spanning_tree_Inl [of "pre_document g lnks attrs" "Exception ''Node collision''"]
        by auto
    qed
    with True show ?thesis using collision_iff [of g] by simp
  qed
next
  show "length (fst (scan_nodes g)) = card (node_id ` set (graph_nodes g))"
    by (rule scan_nodes_length)
next
  show "(length (fst (scan_nodes g)) \<noteq> length (graph_nodes g)) =
        (\<not> distinct (map node_id (graph_nodes g)))"
    by (rule collision_iff)
next
  fix d assume "from_graph g = Inr d"
  then show "nodes d = zip (map node_id (graph_nodes g)) [0 ..< length (graph_nodes g)]"
    by (rule from_graph_fields(3))
qed

lemma from_graph_Inr_names:
  assumes "from_graph g = Inr d"
  shows "''root'' \<in> attribute_names g \<and> ''tree_link'' \<in> attribute_names g"
proof -
  from from_graph_Inr [OF assms] obtain lnks attrs where
    se: "scan_edges g = Inr (lnks, attrs)" and st: "spanning_tree (pre_document g lnks attrs) = Inr d"
    by blast
  have names: "set (map fst attrs) = attribute_names g" using scan_edges_attrs(2) [OF se] by simp
  note sh = pre_document_shape [of g lnks attrs]
  have "''root'' \<in> set (map fst attrs)"
  proof (rule ccontr)
    assume "''root'' \<notin> set (map fst attrs)"
    from spanning_tree_no_root [OF sh(1) this] st show False by simp
  qed
  moreover have "''tree_link'' \<in> set (map fst attrs)"
  proof (rule ccontr)
    assume "''tree_link'' \<notin> set (map fst attrs)"
    from spanning_tree_no_tree_link [OF sh(1,2) \<open>''root'' \<in> set (map fst attrs)\<close> this] st
    show False by simp
  qed
  ultimately show ?thesis using names by simp
qed

lemma from_graph_missing:
  assumes dist: "distinct (map node_id (graph_nodes g))" and ends: "endpoints_known g"
  shows "''root'' \<notin> attribute_names g \<Longrightarrow> from_graph g = Inl (KeyError ''root'')"
    and "''root'' \<in> attribute_names g \<Longrightarrow> ''tree_link'' \<notin> attribute_names g \<Longrightarrow>
         from_graph g = Inl (KeyError ''tree_link'')"
proof -
  from scan_edges_total [OF ends] obtain lnks attrs where se: "scan_edges g = Inr (lnks, attrs)"
    by blast
  have names: "set (map fst attrs) = attribute_names g" using scan_edges_attrs(2) [OF se] by simp
  note fg = from_graph_stage [OF dist se]
  note sh = pre_document_shape [of g lnks attrs]
  show "from_graph g = Inl (KeyError ''root'')" if "''root'' \<notin> attribute_names g"
  proof -
    from that names have "''root'' \<notin> set (map fst attrs)" by simp
    from spanning_tree_no_root [OF sh(1) this] fg show ?thesis by simp
  qed
  show "from_graph g = Inl (KeyError ''tree_link'')"
    if "''root'' \<in> attribute_names g" "''tree_link'' \<notin> attribute_names g"
  proof -
    from that names have "''root'' \<in> set (map fst attrs)" "''tree_link'' \<notin> set (map fst attrs)"
      by simp_all
    from spanning_tree_no_tree_link [OF sh(1,2) this] fg show ?thesis by simp
  qed
qed

text \<open>
  Claim C3.  A graph on which no node or edge carries \<^verbatim>\<open>root\<close>, or none carries
  \<^verbatim>\<open>tree_link\<close>, yields an error and no document.  When the scanning loops
  succeed (the nodes are distinct and every edge joins nodes of the graph), the error is
  the \<^verbatim>\<open>KeyError\<close> naming the missing attribute, \<^verbatim>\<open>root\<close> first.  When both
  names are present the document is returned, the type tags of the two attribute
  definitions are \<^verbatim>\<open>Value('bool')\<close>, and the qualifiers are exactly one mapping: type
  \<^verbatim>\<open>$spanning_tree\<close>, name \<^verbatim>\<open>$default_spanning_tree\<close>, the description text, and
  the two pairs of the index of \<^verbatim>\<open>root\<close> with \<^verbatim>\<open>$root\<close> and of the index of
  \<^verbatim>\<open>tree_link\<close> with \<^verbatim>\<open>$tree_link\<close>.
\<close>

theorem spanning_tree_attributes_required:
  "((''root'' \<notin> attribute_names g \<or> ''tree_link'' \<notin> attribute_names g) \<longrightarrow>
      (\<exists>e. from_graph g = Inl e)) \<and>
   (distinct (map node_id (graph_nodes g)) \<and> endpoints_known g \<longrightarrow>
      (''root'' \<notin> attribute_names g \<longrightarrow> from_graph g = Inl (KeyError ''root'')) \<and>
      (''root'' \<in> attribute_names g \<and> ''tree_link'' \<notin> attribute_names g \<longrightarrow>
         from_graph g = Inl (KeyError ''tree_link'')) \<and>
      (''root'' \<in> attribute_names g \<and> ''tree_link'' \<in> attribute_names g \<longrightarrow>
         (\<exists>d r t. from_graph g = Inr d \<and>
            map_of (attribute_order d) ''root'' = Some r \<and>
            map_of (attribute_order d) ''tree_link'' = Some t \<and>
            r < length (attributes d) \<and> t < length (attributes d) \<and>
            map_of (attributes d ! r) ''name'' = Some (PElem (Identifier (SStr ''root''))) \<and>
            map_of (attributes d ! t) ''name'' = Some (PElem (Identifier (SStr ''tree_link''))) \<and>
            map_of (attributes d ! r) ''type'' = Some (PElem (Value (SStr ''bool''))) \<and>
            map_of (attributes d ! t) ''type'' = Some (PElem (Value (SStr ''bool''))) \<and>
            qualifiers d =
              [PDict
                [(''type'', PElem (Identifier (SStr ''spanning_tree''))),
                 (''name'', PElem (Identifier (SStr ''default_spanning_tree''))),
                 (''description'', Prim (SStr ''Spanning tree for walrus'')),
                 (''attributes'',
                    PList [PTuple [] [Prim (SInt (int r)), PElem (Identifier (SStr ''root''))],
                           PTuple [] [Prim (SInt (int t)), PElem (Identifier (SStr ''tree_link''))]])]])))"
proof (intro conjI impI)
  assume missing: "''root'' \<notin> attribute_names g \<or> ''tree_link'' \<notin> attribute_names g"
  show "\<exists>e. from_graph g = Inl e"
  proof (cases "from_graph g")
    case (Inl e)
    then show ?thesis by blast
  next
    case (Inr d)
    from from_graph_Inr_names [OF this] missing show ?thesis by blast
  qed
next
  assume "distinct (map node_id (graph_nodes g)) \<and> endpoints_known g"
    and "''root'' \<notin> attribute_names g"
  then show "from_graph g = Inl (KeyError ''root'')" by (simp add: from_graph_missing(1))
next
  assume "distinct (map node_id (graph_nodes g)) \<and> endpoints_known g"
    and "''root'' \<in> attribute_names g \<and> ''tree_link'' \<notin> attribute_names g"
  then show "from_graph g = Inl (KeyError ''tree_link'')" by (simp add: from_graph_missing(2))
next
  assume a: "distinct (map node_id (graph_nodes g)) \<and> endpoints_known g"
    and b: "''root'' \<in> attribute_names g \<and> ''tree_link'' \<in> attribute_names g"
  from a b
  have "\<exists>d r t. from_graph g = Inr d \<and>
           map_of (attribute_order d) ''root'' = Some r \<and>
           map_of (attribute_order d) ''tree_link'' = Some t \<and>
           r < length (attributes d) \<and> t < length (attributes d) \<and>
           map_of (attributes d ! r) ''name'' = Some (PElem (Identifier (SStr ''root''))) \<and>
           map_of (attributes d ! t) ''name'' = Some (PElem (Identifier (SStr ''tree_link''))) \<and>
           map_of (attributes d ! r) ''type'' = Some bool_tag \<and>
           map_of (attributes d ! t) ''type'' = Some bool_tag \<and>
           qualifiers d = [spanning_tree_qualifier r t]"
    by (intro from_graph_ok) simp_all
  then show "\<exists>d r t. from_graph g = Inr d \<and>
            map_of (attribute_order d) ''root'' = Some r \<and>
            map_of (attribute_order d) ''tree_link'' = Some t \<and>
            r < length (attributes d) \<and> t < length (attributes d) \<and>
            map_of (attributes d ! r) ''name'' = Some (PElem (Identifier (SStr ''root''))) \<and>
            map_of (attributes d ! t) ''name'' = Some (PElem (Identifier (SStr ''tree_link''))) \<and>
            map_of (attributes d ! r) ''type'' = Some (PElem (Value (SStr ''bool''))) \<and>
            map_of (attributes d ! t) ''type'' = Some (PElem (Value (SStr ''bool''))) \<and>
            qualifiers d =
              [PDict
                [(''type'', PElem (Identifier (SStr ''spanning_tree''))),
                 (''name'', PElem (Identifier (SStr ''default_spanning_tree''))),
                 (''description'', Prim (SStr ''Spanning tree for walrus'')),
                 (''attributes'',
                    PList [PTuple [] [Prim (SInt (int r)), PElem (Identifier (SStr ''root''))],
                           PTuple [] [Prim (SInt (int t)), PElem (Identifier (SStr ''tree_link''))]])]]"
    unfolding bool_tag_def spanning_tree_qualifier_def .
qed

lemma example_graph_ok:
  "distinct (map node_id (graph_nodes example_graph))"
  "endpoints_known example_graph"
  "''root'' \<in> attribute_names example_graph"
  "''tree_link'' \<in> attribute_names example_graph"
  by (simp_all add: example_graph_def endpoints_known_def attribute_names_def)

lemma other_graphs_ok:
  "distinct (map node_id (graph_nodes no_root_graph))"
  "endpoints_known no_root_graph"
  "''root'' \<notin> attribute_names no_root_graph"
  "distinct (map node_id (graph_nodes no_tree_link_graph))"
  "endpoints_known no_tree_link_graph"
  "''root'' \<in> attribute_names no_tree_link_graph"
  "''tree_link'' \<notin> attribute_names no_tree_link_graph"
  by (simp_all add: no_root_graph_def no_tree_link_graph_def endpoints_known_def
      attribute_names_def)

lemma from_graph_attribute_order:
  assumes "from_graph g = Inr d"
  shows "\<exists>lnks attrs. scan_edges g = Inr (lnks, attrs) \<and>
           attribute_order d = zip (map fst attrs) [0 ..< length attrs]"
proof -
  from from_graph_Inr [OF assms] obtain lnks attrs where
    se: "scan_edges g = Inr (lnks, attrs)" and st: "spanning_tree (pre_document g lnks attrs) = Inr d"
    by blast
  from spanning_tree_keeps [OF st]
  have "attribute_order d = zip (map fst attrs) [0 ..< length attrs]"
    by (simp add: pre_document_def)
  with se show ?thesis by blast
qed

lemma example_graph_names:
  "map fst (snd (projr (scan_edges example_graph))) = [''root'', ''color'', ''tree_link'']"
  by code_simp

lemma example_graph_order:
  assumes "from_graph example_graph = Inr d"
  shows "map_of (attribute_order d) ''root'' = Some 0"
    and "map_of (attribute_order d) ''tree_link'' = Some 2"
proof -
  from from_graph_attribute_order [OF assms] obtain lnks attrs where
    se: "scan_edges example_graph = Inr (lnks, attrs)"
    and ao: "attribute_order d = zip (map fst attrs) [0 ..< length attrs]"
    by blast
  from se example_graph_names have nm: "map fst attrs = [''root'', ''color'', ''tree_link'']"
    by simp
  then have "length attrs = 3" using length_map [of fst attrs] by simp
  with ao nm have "attribute_order d = [(''root'', 0), (''color'', 1), (''tree_link'', 2)]"
    by (simp add: upt_rec)
  then show "map_of (attribute_order d) ''root'' = Some 0"
    and "map_of (attribute_order d) ''tree_link'' = Some 2"
    by simp_all
qed

theorem spanning_tree_attributes_required_witness:
  "from_graph no_root_graph = Inl (KeyError ''root'') \<and>
   from_graph no_tree_link_graph = Inl (KeyError ''tree_link'') \<and>
   (\<exists>d. from_graph example_graph = Inr d \<and>
      map_of (attributes d ! 0) ''type'' = Some (PElem (Value (SStr ''bool''))) \<and>
      map_of (attributes d ! 2) ''type'' = Some (PElem (Value (SStr ''bool''))) \<and>
      qualifiers d =
        [PDict
          [(''type'', PElem (Identifier (SStr ''spanning_tree''))),
           (''name'', PElem (Identifier (SStr ''default_spanning_tree''))),
           (''description'', Prim (SStr ''Spanning tree for walrus'')),
           (''attributes'',
              PList [PTuple [] [Prim (SInt 0), PElem (Identifier (SStr ''root''))],
                     PTuple [] [Prim (SInt 2), PElem (Identifier (SStr ''tree_link''))]])]])"
proof (intro conjI)
  show "from_graph no_root_graph = Inl (KeyError ''root'')"
    using spanning_tree_attributes_required [of no_root_graph] other_graphs_ok by blast
  show "from_graph no_tree_link_graph = Inl (KeyError ''tree_link'')"
    using spanning_tree_attributes_required [of no_tree_link_graph] other_graphs_ok by blast
  note ok = spanning_tree_attributes_required [of example_graph, THEN conjunct2, rule_format,
      OF conjI [OF example_graph_ok(1,2)], THEN conjunct2, THEN conjunct2, rule_format,
      OF conjI [OF example_graph_ok(3,4)]]
  from ok obtain d r t where d: "from_graph example_graph = Inr d"
    and r: "map_of (attribute_order d) ''root'' = Some r"
    and t: "map_of (attribute_order d) ''tree_link'' = Some t"
    and tr: "map_of (attributes d ! r) ''type'' = Some (PElem (Value (SStr ''bool'')))"
    and tt: "map_of (attributes d ! t) ''type'' = Some (PElem (Value (SStr ''bool'')))"
    and q: "qualifiers d =
        [PDict
          [(''type'', PElem (Identifier (SStr ''spanning_tree''))),
           (''name'', PElem (Identifier (SStr ''default_spanning_tree''))),
           (''description'', Prim (SStr ''Spanning tree for walrus'')),
           (''attributes'',
              PList [PTuple [] [Prim (SInt (int r)), PElem (Identifier (SStr ''root''))],
                     PTuple [] [Prim (SInt (int t)), PElem (Identifier (SStr ''tree_link''))]])]]"
    by (elim exE conjE)
  from r example_graph_order(1) [OF d] have r0: "r = 0" by simp
  from t example_graph_order(2) [OF d] have t2: "t = 2" by simp
  from d tr tt q
  show "\<exists>d. from_graph example_graph = Inr d \<and>
      map_of (attributes d ! 0) ''type'' = Some (PElem (Value (SStr ''bool''))) \<and>
      map_of (attributes d ! 2) ''type'' = Some (PElem (Value (SStr ''bool''))) \<and>
      qualifiers d =
        [PDict
          [(''type'', PElem (Identifier (SStr ''spanning_tree''))),
           (''name'', PElem (Identifier (SStr ''default_spanning_tree''))),
           (''description'', Prim (SStr ''Spanning tree for walrus'')),
           (''attributes'',
              PList [PTuple [] [Prim (SInt 0), PElem (Identifier (SStr ''root''))],
                     PTuple [] [Prim (SInt 2), PElem (Identifier (SStr ''tree_link''))]])]]"
    unfolding r0 t2 by (intro exI [of _ d]) simp
qed

lemma collision_graph_collides:
  "length (fst (scan_nodes collision_graph)) \<noteq> length (graph_nodes collision_graph)"
  unfolding collision_iff by (simp add: collision_graph_def)

lemma example_graph_assembles: "\<exists>d. from_graph example_graph = Inr d"
  using from_graph_ok [OF example_graph_ok] by blast

theorem node_ids_dense_or_collision_witness:
  "from_graph collision_graph = Inl (Exception ''Node collision'') \<and>
   (\<exists>d. from_graph example_graph = Inr d \<and> nodes d = [(''a'', 0), (''b'', 1), (''c'', 2)])"
proof
  show "from_graph collision_graph = Inl (Exception ''Node collision'')"
    using node_ids_dense_or_collision [of collision_graph] collision_graph_collides by blast
next
  from example_graph_assembles obtain d where d: "from_graph example_graph = Inr d" ..
  with node_ids_dense_or_collision [of example_graph]
  have "nodes d = zip (map node_id (graph_nodes example_graph))
                    [0 ..< length (graph_nodes example_graph)]"
    by blast
  then have "nodes d = [(''a'', 0), (''b'', 1), (''c'', 2)]"
    by (simp add: example_graph_def upt_rec)
  with d show "\<exists>d. from_graph example_graph = Inr d \<and> nodes d = [(''a'', 0), (''b'', 1), (''c'', 2)]"
    by blast
qed

lemma from_graph_links:
  assumes "from_graph g = Inr d"
  shows "links d =
           map (\<lambda>e. Link (the (map_of (nodes d) (edge_0 e))) (the (map_of (nodes d) (edge_1 e))))
             (graph_edges g)"
    and "e \<in> set (graph_edges g) \<Longrightarrow> h = edge_0 e \<or> h = edge_1 e \<Longrightarrow>
         \<exists>i. map_of (nodes d) h = Some i \<and> i < length (graph_nodes g) \<and>
             node_id (graph_nodes g ! i) = h"
proof -
  from from_graph_Inr [OF assms] have dist: "distinct (map node_id (graph_nodes g))" by blast
  from from_graph_fields(6) [OF assms] obtain attrs where
    se: "scan_edges g = Inr (links d, attrs)" ..
  have no: "fst (scan_nodes g) = nodes d"
    using scan_nodes_distinct [OF dist] from_graph_fields(3) [OF assms] by simp
  note el = edge_loop_Inr [OF se [unfolded scan_edges_def no]]
  from el show "links d =
      map (\<lambda>e. Link (the (map_of (nodes d) (edge_0 e))) (the (map_of (nodes d) (edge_1 e))))
        (graph_edges g)"
    by simp
  show "\<exists>i. map_of (nodes d) h = Some i \<and> i < length (graph_nodes g) \<and>
            node_id (graph_nodes g ! i) = h"
    if "e \<in> set (graph_edges g)" "h = edge_0 e \<or> h = edge_1 e"
  proof -
    from that el have "h \<in> fst ` set (nodes d)" by blast
    from map_of_key [OF this] obtain i where i: "map_of (nodes d) h = Some i" ..
    then have "map_of (zip (map node_id (graph_nodes g)) [0 ..< length (map node_id (graph_nodes g))]) h = Some i"
      using from_graph_fields(3) [OF assms] by simp
    from zip_index_Some [OF this] i show ?thesis
      using nth_map [of i "graph_nodes g" node_id] by auto
  qed
qed

lemma from_graph_succeeds_iff:
  "(\<exists>d. from_graph g = Inr d) \<longleftrightarrow>
     distinct (map node_id (graph_nodes g)) \<and> endpoints_known g \<and>
     ''root'' \<in> attribute_names g \<and> ''tree_link'' \<in> attribute_names g"
proof
  assume "\<exists>d. from_graph g = Inr d"
  then obtain d where d: "from_graph g = Inr d" ..
  from from_graph_Inr [OF d] have dist: "distinct (map node_id (graph_nodes g))" by blast
  have "h \<in> node_id ` set (graph_nodes g)"
    if "e \<in> set (graph_edges g)" "h = edge_0 e \<or> h = edge_1 e" for e h
  proof -
    from from_graph_links(2) [OF d that] obtain i where
      "i < length (graph_nodes g)" "node_id (graph_nodes g ! i) = h" by blast
    then show ?thesis using nth_mem [of i "graph_nodes g"] by (metis imageI)
  qed
  then have "endpoints_known g" unfolding endpoints_known_def list_all_iff by blast
  with dist from_graph_Inr_names [OF d]
  show "distinct (map node_id (graph_nodes g)) \<and> endpoints_known g \<and>
     ''root'' \<in> attribute_names g \<and> ''tree_link'' \<in> attribute_names g"
    by blast
next
  assume "distinct (map node_id (graph_nodes g)) \<and> endpoints_known g \<and>
     ''root'' \<in> attribute_names g \<and> ''tree_link'' \<in> attribute_names g"
  then have "distinct (map node_id (graph_nodes g))" "endpoints_known g"
    "''root'' \<in> attribute_names g" "''tree_link'' \<in> attribute_names g"
    by simp_all
  from from_graph_ok [OF this] show "\<exists>d. from_graph g = Inr d" by blast
qed

lemma print_var_count:
  "print_var ''numNodes'' (pint 3) True 4 = ''    @numNodes=3;'' @ [NL]"
  "print_var ''numLinks'' (pint 2) True 4 = ''    @numLinks=2;'' @ [NL]"
  "print_var ''numNodes'' (pint 3) False 4 = ''    3;'' @ [NL]"
  "print_var ''numLinks'' (pint 2) False 4 = ''    2;'' @ [NL]"
  by code_simp+

lemma Graph_serialize_counts:
  assumes "description d = Some descr"
  shows "Graph_serialize d labels comments 0 =
     Inr (concat
         [''Graph'' @ [NL],
          ''{'' @ [NL],
          if comments then indent_text (''# Metadata'' @ [NL]) 4 else [],
          print_var ''name'' (pstr (name d)) labels 4,
          print_var ''description'' (pstr descr) labels 4,
          if comments then [NL] else [],
          if comments then indent_text (''# Lengths'' @ [NL]) 4 else []]
       @ print_var ''numNodes'' (pint (length (nodes d))) labels 4
       @ print_var ''numLinks'' (pint (length (links d))) labels 4
       @ concat
         [print_var ''numPaths'' (pint (length (paths d))) labels 4,
          print_var ''numPathLinks'' (pint 0) labels 4,
          if comments then [NL] else [],
          if comments then indent_text (''# Structural information'' @ [NL]) 4 else [],
          print_var ''links'' (PList (links d)) labels 4,
          print_var ''paths'' (PList (paths d)) labels 4,
          if comments then [NL] else [],
          if comments then indent_text (''# Attributes'' @ [NL]) 4 else [],
          print_var ''enumerations'' (PList (enums d)) labels 4,
          print_var ''attributeDefinitions'' (PList (map PDict (attributes d))) labels 4,
          print_var ''qualifiers'' (PList (qualifiers d)) labels 4,
          if comments then [NL] else [],
          if comments then indent_text (''# Visualization'' @ [NL]) 4 else [],
          print_var ''filters'' (Prim SNone) labels 4,
          print_var ''selectors'' (Prim SNone) labels 4,
          print_var ''displays'' (Prim SNone) labels 4,
          print_var ''presentations'' (Prim SNone) labels 4,
          if comments then [NL] else [],
          if comments then indent_text (''# Interface'' @ [NL]) 4 else [],
          print_var ''presentationMenus'' (Prim SNone) labels 4,
          print_var ''displayMenus'' (Prim SNone) labels 4,
          print_var ''selectorMenus'' (Prim SNone) labels 4,
          print_var ''filterMenus'' (Prim SNone) labels 4,
          print_var ''attributeMenus'' (Prim SNone) labels 4,
          ''}''])"
  unfolding Graph_serialize_def Graph_serialize_body_def assms option.case sum.case
    indentable_0 concat.simps append_assoc append_Nil2 ..

lemma Graph_serialize_counts_ex:
  assumes "description d = Some descr"
    and "print_var ''numNodes'' (pint (length (nodes d))) labels 4 = a"
    and "print_var ''numLinks'' (pint (length (links d))) labels 4 = b"
  shows "\<exists>pre post. Graph_serialize d labels comments 0 = Inr (pre @ a @ b @ post)"
  unfolding Graph_serialize_counts [OF assms(1)] assms(2,3) by blast

text \<open>
  Claim C5, as stated, fails: a graph with three distinct nodes and two edges on which
  nothing carries \<^verbatim>\<open>root\<close> yields the \<^verbatim>\<open>KeyError\<close> and no document, hence no
  \<^verbatim>\<open>numNodes\<close> and no links.
\<close>

theorem three_nodes_two_edges_no_document:
  "length (graph_nodes bare_graph) = 3 \<and> distinct (map node_id (graph_nodes bare_graph)) \<and>
   length (graph_edges bare_graph) = 2 \<and>
   from_graph bare_graph = Inl (KeyError ''root'')"
proof -
  have "distinct (map node_id (graph_nodes bare_graph))" "endpoints_known bare_graph"
    "''root'' \<notin> attribute_names bare_graph"
    by (simp_all add: bare_graph_def endpoints_known_def attribute_names_def)
  from from_graph_missing(1) [OF this]
  show ?thesis by (simp add: bare_graph_def)
qed

text \<open>
  Claim C5, amended.  A graph with three nodes and two edges is assembled into a document
  exactly when its nodes are distinct, every edge joins nodes of the graph, and the
  attributes \<^verbatim>\<open>root\<close> and \<^verbatim>\<open>tree_link\<close> both occur on some node or edge.  The
  document then has three entries in \<^verbatim>\<open>nodes\<close> and two in \<^verbatim>\<open>links\<close>; its links
  are the two \<^verbatim>\<open>(source, destination)\<close> pairs of the ids of the end points of the first
  and of the second edge, each id being 0, 1 or 2; and its serialisation contains the
  lines \<^verbatim>\<open>@numNodes=3;\<close> and \<^verbatim>\<open>@numLinks=2;\<close> one after the other
  (\<^verbatim>\<open>3;\<close> and \<^verbatim>\<open>2;\<close> without labels).
\<close>

theorem three_nodes_two_edges:
  assumes "length (graph_nodes g) = 3" and "length (graph_edges g) = 2"
  shows "((\<exists>d. from_graph g = Inr d) \<longleftrightarrow>
        distinct (map node_id (graph_nodes g)) \<and> endpoints_known g \<and>
        ''root'' \<in> attribute_names g \<and> ''tree_link'' \<in> attribute_names g) \<and>
     (\<forall>d. from_graph g = Inr d \<longrightarrow>
        length (nodes d) = 3 \<and> length (links d) = 2 \<and>
        (\<exists>s0 d0 s1 d1.
           links d =
             [PTuple [''source'', ''destination''] [Prim (SInt (int s0)), Prim (SInt (int d0))],
              PTuple [''source'', ''destination''] [Prim (SInt (int s1)), Prim (SInt (int d1))]] \<and>
           {s0, d0, s1, d1} \<subseteq> {0, 1, 2} \<and>
           node_id (graph_nodes g ! s0) = edge_0 (graph_edges g ! 0) \<and>
           node_id (graph_nodes g ! d0) = edge_1 (graph_edges g ! 0) \<and>
           node_id (graph_nodes g ! s1) = edge_0 (graph_edges g ! 1) \<and>
           node_id (graph_nodes g ! d1) = edge_1 (graph_edges g ! 1)) \<and>
        (\<exists>pre post. Graph_serialize d True comments 0 =
           Inr (pre @ ''    @numNodes=3;'' @ [NL] @ ''    @numLinks=2;'' @ [NL] @ post)) \<and>
        (\<exists>pre post. Graph_serialize d False comments 0 =
           Inr (pre @ ''    3;'' @ [NL] @ ''    2;'' @ [NL] @ post)))"
proof (intro conjI allI impI)
  show "(\<exists>d. from_graph g = Inr d) \<longleftrightarrow>
        distinct (map node_id (graph_nodes g)) \<and> endpoints_known g \<and>
        ''root'' \<in> attribute_names g \<and> ''tree_link'' \<in> attribute_names g"
    by (rule from_graph_succeeds_iff)
next
  fix d assume fg: "from_graph g = Inr d"
  from assms(2) obtain e0 e1 where es: "graph_edges g = [e0, e1]"
    by (auto simp: length_Suc_conv numeral_2_eq_2)
  show n: "length (nodes d) = 3"
    using from_graph_fields(3) [OF fg] assms(1) by simp
  have l: "links d = [Link (the (map_of (nodes d) (edge_0 e0))) (the (map_of (nodes d) (edge_1 e0))),
                      Link (the (map_of (nodes d) (edge_0 e1))) (the (map_of (nodes d) (edge_1 e1)))]"
    using from_graph_links(1) [OF fg] es by simp
  have idx: "\<exists>i. map_of (nodes d) h = Some i \<and> i < 3 \<and> node_id (graph_nodes g ! i) = h"
    if "h \<in> {edge_0 e0, edge_1 e0, edge_0 e1, edge_1 e1}" for h
  proof -
    from that obtain e where "e \<in> set (graph_edges g)" "h = edge_0 e \<or> h = edge_1 e"
      using es by auto
    from from_graph_links(2) [OF fg this] assms(1) show ?thesis by simp
  qed
  from idx [of "edge_0 e0"] obtain s0 where
    s0: "map_of (nodes d) (edge_0 e0) = Some s0" "s0 < 3" "node_id (graph_nodes g ! s0) = edge_0 e0"
    by auto
  from idx [of "edge_1 e0"] obtain d0 where
    d0: "map_of (nodes d) (edge_1 e0) = Some d0" "d0 < 3" "node_id (graph_nodes g ! d0) = edge_1 e0"
    by auto
  from idx [of "edge_0 e1"] obtain s1 where
    s1: "map_of (nodes d) (edge_0 e1) = Some s1" "s1 < 3" "node_id (graph_nodes g ! s1) = edge_0 e1"
    by auto
  from idx [of "edge_1 e1"] obtain d1 where
    d1: "map_of (nodes d) (edge_1 e1) = Some d1" "d1 < 3" "node_id (graph_nodes g ! d1) = edge_1 e1"
    by auto
  have small: "i < 3 \<Longrightarrow> i \<in> {0, 1, 2}" for i :: nat by auto
  have lk: "links d =
      [PTuple [''source'', ''destination''] [Prim (SInt (int s0)), Prim (SInt (int d0))],
       PTuple [''source'', ''destination''] [Prim (SInt (int s1)), Prim (SInt (int d1))]]"
    using l s0(1) d0(1) s1(1) d1(1) by (simp add: Link_def)
  moreover have "{s0, d0, s1, d1} \<subseteq> {0, 1, 2}"
    using small [OF s0(2)] small [OF d0(2)] small [OF s1(2)] small [OF d1(2)] by blast
  moreover have "node_id (graph_nodes g ! s0) = edge_0 (graph_edges g ! 0)"
    "node_id (graph_nodes g ! d0) = edge_1 (graph_edges g ! 0)"
    "node_id (graph_nodes g ! s1) = edge_0 (graph_edges g ! 1)"
    "node_id (graph_nodes g ! d1) = edge_1 (graph_edges g ! 1)"
    using s0(3) d0(3) s1(3) d1(3) es by simp_all
  ultimately show "\<exists>s0 d0 s1 d1.
        links d =
          [PTuple [''source'', ''destination''] [Prim (SInt (int s0)), Prim (SInt (int d0))],
           PTuple [''source'', ''destination''] [Prim (SInt (int s1)), Prim (SInt (int d1))]] \<and>
        {s0, d0, s1, d1} \<subseteq> {0, 1, 2} \<and>
        node_id (graph_nodes g ! s0) = edge_0 (graph_edges g ! 0) \<and>
        node_id (graph_nodes g ! d0) = edge_1 (graph_edges g ! 0) \<and>
        node_id (graph_nodes g ! s1) = edge_0 (graph_edges g ! 1) \<and>
        node_id (graph_nodes g ! d1) = edge_1 (graph_edges g ! 1)"
    by blast
  show ll: "length (links d) = 2" using lk by simp
  note ds = from_graph_fields(2) [OF fg]
  show "\<exists>pre post. Graph_serialize d True comments 0 =
           Inr (pre @ ''    @numNodes=3;'' @ [NL] @ ''    @numLinks=2;'' @ [NL] @ post)"
    using Graph_serialize_counts_ex [OF ds, of True "''    @numNodes=3;'' @ [NL]"
        "''    @numLinks=2;'' @ [NL]" comments]
    unfolding n ll print_var_count by simp
  show "\<exists>pre post. Graph_serialize d False comments 0 =
           Inr (pre @ ''    3;'' @ [NL] @ ''    2;'' @ [NL] @ post)"
    using Graph_serialize_counts_ex [OF ds, of False "''    3;'' @ [NL]" "''    2;'' @ [NL]" comments]
    unfolding n ll print_var_count by simp
qed

lemma example_graph_links:
  "fst (projr (scan_edges example_graph)) =
     [PTuple [''source'', ''destination''] [Prim (SInt 0), Prim (SInt 1)],
      PTuple [''source'', ''destination''] [Prim (SInt 0), Prim (SInt 2)]]"
  by code_simp

theorem three_nodes_two_edges_witness:
  "\<exists>d. from_graph example_graph = Inr d \<and> length (nodes d) = 3 \<and> length (links d) = 2 \<and>
       links d =
         [PTuple [''source'', ''destination''] [Prim (SInt 0), Prim (SInt 1)],
          PTuple [''source'', ''destination''] [Prim (SInt 0), Prim (SInt 2)]] \<and>
       (\<exists>pre post. Graph_serialize d True False 0 =
          Inr (pre @ ''    @numNodes=3;'' @ [NL] @ ''    @numLinks=2;'' @ [NL] @ post))"
proof -
  have 3: "length (graph_nodes example_graph) = 3" and 2: "length (graph_edges example_graph) = 2"
    by (simp_all add: example_graph_def)
  note t = three_nodes_two_edges [OF 3 2, of False]
  from t [THEN conjunct1] example_graph_ok
  obtain d where d: "from_graph example_graph = Inr d" by blast
  note p = t [THEN conjunct2, rule_format, OF d]
  from from_graph_fields(6) [OF d] obtain attrs where
    "scan_edges example_graph = Inr (links d, attrs)" ..
  with example_graph_links
  have "links d =
         [PTuple [''source'', ''destination''] [Prim (SInt 0), Prim (SInt 1)],
          PTuple [''source'', ''destination''] [Prim (SInt 0), Prim (SInt 2)]]"
    by simp
  with d p [THEN conjunct1] p [THEN conjunct2, THEN conjunct1]
    p [THEN conjunct2, THEN conjunct2, THEN conjunct2, THEN conjunct1]
  show ?thesis by blast
qed

lemma bucket_get_dict:
  "bucket_get attrs nm kind i = map_of (dict_get (dict_get attrs nm []) kind []) i"
  by (simp add: bucket_get_def dict_get_def split: option.splits)

lemma make_attr_values:
  "map_of (make_attr attrs nm) ''nodeValues'' =
     Some (PList (map (\<lambda>(i, v). attrValue i v) (dict_get (dict_get attrs nm []) ''nodeValues'' [])))"
  "map_of (make_attr attrs nm) ''linkValues'' =
     Some (PList (map (\<lambda>(i, v). attrValue i v) (dict_get (dict_get attrs nm []) ''linkValues'' [])))"
  by (simp_all add: make_attr_def attributeDefinition_def map_of_dict_set Let_def)

lemma spanning_tree_attributes:
  assumes "spanning_tree L = Inr d"
  shows "length (attributes d) = length (attributes L)"
    and "key \<noteq> ''type'' \<Longrightarrow> k < length (attributes L) \<Longrightarrow>
         map_of (attributes d ! k) key = map_of (attributes L ! k) key"
proof -
  from assms obtain r t where
    d: "attributes d =
          (attributes L)[r := dict_set (attributes L ! r) ''type'' bool_tag,
                         t := dict_set ((attributes L)[r := dict_set (attributes L ! r) ''type'' bool_tag] ! t) ''type'' bool_tag]"
    by (auto simp: spanning_tree_def set_type_def split: option.splits if_splits)
  show "length (attributes d) = length (attributes L)" unfolding d by simp
  show "map_of (attributes d ! k) key = map_of (attributes L ! k) key"
    if "key \<noteq> ''type''" "k < length (attributes L)"
    using that unfolding d
    by (cases "k = t"; cases "k = r") (simp_all add: map_of_dict_set)
qed

lemma from_graph_values:
  assumes fg: "from_graph g = Inr d" and se: "scan_edges g = Inr (lnks, attrs)"
    and kind: "kind = ''nodeValues'' \<or> kind = ''linkValues''"
    and stored: "bucket_get attrs nm kind i = Some x"
  shows "\<exists>k vals. map_of (attribute_order d) nm = Some k \<and> k < length (attributes d) \<and>
           map_of (attributes d ! k) kind = Some (PList (map (\<lambda>(i, v). attrValue i v) vals)) \<and>
           map_of vals i = Some x"
proof -
  from from_graph_Inr [OF fg] se have st: "spanning_tree (pre_document g lnks attrs) = Inr d"
    by auto
  note sh = pre_document_shape [of g lnks attrs]
  from stored have "map_of attrs nm \<noteq> None"
    by (auto simp: bucket_get_def split: option.splits)
  then have "nm \<in> set (map fst attrs)" by (simp add: map_of_eq_None_iff)
  from zip_index_present [OF this] obtain k where
    k: "map_of (zip (map fst attrs) [0 ..< length (map fst attrs)]) nm = Some k" ..
  note kb = zip_index_Some [OF k]
  have kn: "fst (attrs ! k) = nm" using kb nth_map [of k attrs fst] by simp
  let ?vals = "dict_get (dict_get attrs nm []) kind []"
  have "map_of (attribute_order d) nm = Some k"
    using spanning_tree_keeps [OF st] k sh(1) by simp
  moreover have "k < length (attributes d)"
    using spanning_tree_attributes(1) [OF st] kb sh(2) by simp
  moreover have "map_of (attributes d ! k) kind = Some (PList (map (\<lambda>(i, v). attrValue i v) ?vals))"
  proof -
    from kind have "kind \<noteq> ''type''" by auto
    moreover have "k < length (attributes (pre_document g lnks attrs))" using kb sh(2) by simp
    ultimately have "map_of (attributes d ! k) kind =
        map_of (attributes (pre_document g lnks attrs) ! k) kind"
      by (rule spanning_tree_attributes(2) [OF st])
    then have "map_of (attributes d ! k) kind = map_of (make_attr attrs nm) kind"
      using kb kn by (simp add: sh(4))
    with kind show ?thesis by (auto simp: make_attr_values)
  qed
  moreover have "map_of ?vals i = Some x" using stored by (simp add: bucket_get_dict)
  ultimately show ?thesis by blast
qed

lemma scan_nodes_stored:
  assumes "i < length (graph_nodes g)" "map_of (node_attr (graph_nodes g ! i)) nm = Some v"
  shows "bucket_get (snd (scan_nodes g)) nm ''nodeValues'' i = Some (attr_value v)"
proof -
  from assms(2) have "nm \<in> fst ` set (node_attr (graph_nodes g ! i))"
    by (auto dest!: map_of_SomeD intro: rev_image_eqI)
  with assms show ?thesis
    unfolding scan_nodes_def by (simp add: node_loop_get dict_get_def)
qed

lemma scan_edges_stored:
  assumes "scan_edges g = Inr (lnks, attrs)"
  shows "j < length (graph_edges g) \<Longrightarrow> map_of (edge_attr (graph_edges g ! j)) nm = Some v \<Longrightarrow>
         bucket_get attrs nm ''linkValues'' j = Some (attr_value v)"
    and "i < length (graph_nodes g) \<Longrightarrow> map_of (node_attr (graph_nodes g ! i)) nm = Some v \<Longrightarrow>
         bucket_get attrs nm ''nodeValues'' i = Some (attr_value v)"
proof -
  note get = edge_loop_get [OF assms [unfolded scan_edges_def]]
  show "bucket_get attrs nm ''linkValues'' j = Some (attr_value v)"
    if "j < length (graph_edges g)" "map_of (edge_attr (graph_edges g ! j)) nm = Some v"
  proof -
    from that(2) have "nm \<in> fst ` set (edge_attr (graph_edges g ! j))"
      by (auto dest!: map_of_SomeD intro: rev_image_eqI)
    with that show ?thesis by (simp add: get dict_get_def)
  qed
  show "bucket_get attrs nm ''nodeValues'' i = Some (attr_value v)"
    if "i < length (graph_nodes g)" "map_of (node_attr (graph_nodes g ! i)) nm = Some v"
    using scan_nodes_stored [OF that] by (simp add: get)
qed

lemma attr_value_renders:
  "ser (attr_value ''True'') labels 0 = ''T''"
  "ser (attr_value ''False'') labels 0 = ''F''"
  by (simp_all add: attr_value_def)

text \<open>
  Claim C2.  For the attribute \<open>nm\<close> with text \<open>v\<close> of the node numbered \<open>i\<close> (of the
  edge numbered \<open>j\<close>), the entry \<open>i\<close> of the \<^verbatim>\<open>nodeValues\<close> bucket (\<open>j\<close> of the
  \<^verbatim>\<open>linkValues\<close> bucket) of \<open>nm\<close> is \<open>attr_value v\<close>, after the scan and in the
  attribute definition of the returned document.  \<open>attr_value\<close> of the text
  \<^verbatim>\<open>True\<close> (\<^verbatim>\<open>False\<close>) is the node \<^verbatim>\<open>Value('T')\<close> (\<^verbatim>\<open>Value('F')\<close>), which
  renders as \<open>T\<close> (\<open>F\<close>); any other text is stored as it is.
\<close>

theorem true_false_values_stored:
  "(i < length (graph_nodes g) \<and> map_of (node_attr (graph_nodes g ! i)) nm = Some v \<longrightarrow>
      bucket_get (snd (scan_nodes g)) nm ''nodeValues'' i = Some (attr_value v)) \<and>
   (scan_edges g = Inr (lnks, attrs) \<and> j < length (graph_edges g) \<and>
      map_of (edge_attr (graph_edges g ! j)) nm = Some v \<longrightarrow>
      bucket_get attrs nm ''linkValues'' j = Some (attr_value v)) \<and>
   (from_graph g = Inr d \<and> i < length (graph_nodes g) \<and>
      map_of (node_attr (graph_nodes g ! i)) nm = Some v \<longrightarrow>
      (\<exists>k vals. map_of (attribute_order d) nm = Some k \<and> k < length (attributes d) \<and>
         map_of (attributes d ! k) ''nodeValues'' = Some (PList (map (\<lambda>(i, x). attrValue i x) vals)) \<and>
         map_of vals i = Some (attr_value v))) \<and>
   (from_graph g = Inr d \<and> j < length (graph_edges g) \<and>
      map_of (edge_attr (graph_edges g ! j)) nm = Some v \<longrightarrow>
      (\<exists>k vals. map_of (attribute_order d) nm = Some k \<and> k < length (attributes d) \<and>
         map_of (attributes d ! k) ''linkValues'' = Some (PList (map (\<lambda>(i, x). attrValue i x) vals)) \<and>
         map_of vals j = Some (attr_value v))) \<and>
   attr_value ''True'' = PElem (Value (SStr ''T'')) \<and>
   attr_value ''False'' = PElem (Value (SStr ''F'')) \<and>
   ser (attr_value ''True'') labels 0 = ''T'' \<and>
   ser (attr_value ''False'') labels 0 = ''F'' \<and>
   (v \<noteq> ''True'' \<and> v \<noteq> ''False'' \<longrightarrow> attr_value v = Prim (SStr v))"
proof (intro conjI impI)
  assume "i < length (graph_nodes g) \<and> map_of (node_attr (graph_nodes g ! i)) nm = Some v"
  then show "bucket_get (snd (scan_nodes g)) nm ''nodeValues'' i = Some (attr_value v)"
    by (simp add: scan_nodes_stored)
next
  assume "scan_edges g = Inr (lnks, attrs) \<and> j < length (graph_edges g) \<and>
      map_of (edge_attr (graph_edges g ! j)) nm = Some v"
  then show "bucket_get attrs nm ''linkValues'' j = Some (attr_value v)"
    using scan_edges_stored(1) [of g lnks attrs j nm v] by blast
next
  assume a: "from_graph g = Inr d \<and> i < length (graph_nodes g) \<and>
      map_of (node_attr (graph_nodes g ! i)) nm = Some v"
  then obtain lnks' attrs' where se: "scan_edges g = Inr (lnks', attrs')"
    using from_graph_Inr [of g d] by blast
  from a have "bucket_get attrs' nm ''nodeValues'' i = Some (attr_value v)"
    by (simp add: scan_edges_stored(2) [OF se])
  from from_graph_values [OF _ se _ this] a
  show "\<exists>k vals. map_of (attribute_order d) nm = Some k \<and> k < length (attributes d) \<and>
         map_of (attributes d ! k) ''nodeValues'' = Some (PList (map (\<lambda>(i, x). attrValue i x) vals)) \<and>
         map_of vals i = Some (attr_value v)"
    by simp
next
  assume a: "from_graph g = Inr d \<and> j < length (graph_edges g) \<and>
      map_of (edge_attr (graph_edges g ! j)) nm = Some v"
  then obtain lnks' attrs' where se: "scan_edges g = Inr (lnks', attrs')"
    using from_graph_Inr [of g d] by blast
  from a have "bucket_get attrs' nm ''linkValues'' j = Some (attr_value v)"
    by (simp add: scan_edges_stored(1) [OF se])
  from from_graph_values [OF _ se _ this] a
  show "\<exists>k vals. map_of (attribute_order d) nm = Some k \<and> k < length (attributes d) \<and>
         map_of (attributes d ! k) ''linkValues'' = Some (PList (map (\<lambda>(i, x). attrValue i x) vals)) \<and>
         map_of vals j = Some (attr_value v)"
    by simp
next
  show "attr_value ''True'' = PElem (Value (SStr ''T''))" by (simp add: attr_value_def)
  show "attr_value ''False'' = PElem (Value (SStr ''F''))" by (simp add: attr_value_def)
  show "ser (attr_value ''True'') labels 0 = ''T''" by (rule attr_value_renders)
  show "ser (attr_value ''False'') labels 0 = ''F''" by (rule attr_value_renders)
next
  assume "v \<noteq> ''True'' \<and> v \<noteq> ''False''"
  then show "attr_value v = Prim (SStr v)" by (simp add: attr_value_def)
qed

theorem true_false_values_stored_witness:
  "bucket_get (snd (scan_nodes example_graph)) ''root'' ''nodeValues'' 0
     = Some (PElem (Value (SStr ''T''))) \<and>
   bucket_get (snd (scan_nodes example_graph)) ''color'' ''nodeValues'' 2
     = Some (Prim (SStr ''red'')) \<and>
   (\<exists>d k vals. from_graph example_graph = Inr d \<and>
      map_of (attribute_order d) ''tree_link'' = Some k \<and>
      map_of (attributes d ! k) ''linkValues'' = Some (PList (map (\<lambda>(i, x). attrValue i x) vals)) \<and>
      map_of vals 1 = Some (PElem (Value (SStr ''T''))))"
proof (intro conjI)
  have n0: "0 < length (graph_nodes example_graph) \<and>
            map_of (node_attr (graph_nodes example_graph ! 0)) ''root'' = Some ''True''"
    by (simp add: example_graph_def)
  have n2: "2 < length (graph_nodes example_graph) \<and>
            map_of (node_attr (graph_nodes example_graph ! 2)) ''color'' = Some ''red''"
    by (simp add: example_graph_def)
  have t: "attr_value ''True'' = PElem (Value (SStr ''T''))"
    and r: "attr_value ''red'' = Prim (SStr ''red'')"
    by (simp_all add: attr_value_def)
  show "bucket_get (snd (scan_nodes example_graph)) ''root'' ''nodeValues'' 0
     = Some (PElem (Value (SStr ''T'')))"
    using true_false_values_stored [of 0 example_graph "''root''" "''True''"] n0 t by simp
  show "bucket_get (snd (scan_nodes example_graph)) ''color'' ''nodeValues'' 2
     = Some (Prim (SStr ''red''))"
    using true_false_values_stored [of 2 example_graph "''color''" "''red''"] n2 r by simp
  from example_graph_assembles obtain d where d: "from_graph example_graph = Inr d" ..
  have e1: "1 < length (graph_edges example_graph) \<and>
            map_of (edge_attr (graph_edges example_graph ! 1)) ''tree_link'' = Some ''True''"
    by (simp add: example_graph_def)
  note c = true_false_values_stored [of 0 example_graph "''tree_link''" "''True''" _ _ 1 d,
      THEN conjunct2, THEN conjunct2, THEN conjunct2, THEN conjunct1, rule_format]
  from d e1 have "\<exists>k vals. map_of (attribute_order d) ''tree_link'' = Some k \<and>
      k < length (attributes d) \<and>
      map_of (attributes d ! k) ''linkValues'' = Some (PList (map (\<lambda>(i, x). attrValue i x) vals)) \<and>
      map_of vals 1 = Some (attr_value ''True'')"
    by (intro c conjI) simp_all
  then show "\<exists>d k vals. from_graph example_graph = Inr d \<and>
      map_of (attribute_order d) ''tree_link'' = Some k \<and>
      map_of (attributes d ! k) ''linkValues'' = Some (PList (map (\<lambda>(i, x). attrValue i x) vals)) \<and>
      map_of vals 1 = Some (PElem (Value (SStr ''T'')))"
    unfolding t using d by blast
qed

section \<open>Rendering a document\<close>

lemma Graph_serialize_no_description:
  "Graph_serialize (Graph_init nm) labels comments indent = Inl (AttributeError ''description'')"
  by (simp add: Graph_serialize_def Graph_serialize_body_def Graph_init_def)

lemma Graph_serialize_total:
  "description self = Some descr \<Longrightarrow> \<exists>rendered. Graph_serialize self labels comments indent = Inr rendered"
  by (simp add: Graph_serialize_def Graph_serialize_body_def)

text \<open>
  Claim C9.  A Graph made by the constructor alone has no description, and rendering it
  fails with the \<^verbatim>\<open>AttributeError\<close> for \<^verbatim>\<open>description\<close>.  A document returned by
  \<^verbatim>\<open>from_graph\<close> has the description of the graph, or the text
  \<^verbatim>\<open>Generated by libsea.py\<close> when the graph has none, and rendering it returns a text.
\<close>

theorem description_required:
  "Graph_serialize (Graph_init nm) labels comments indent = Inl (AttributeError ''description'') \<and>
   (from_graph g = Inr d \<longrightarrow>
      description d = Some (dict_get (graph_attr g) ''description'' ''Generated by libsea.py'') \<and>
      (\<exists>rendered. Graph_serialize d labels comments indent = Inr rendered))"
proof (intro conjI impI)
  show "Graph_serialize (Graph_init nm) labels comments indent = Inl (AttributeError ''description'')"
    by (rule Graph_serialize_no_description)
next
  assume fg: "from_graph g = Inr d"
  then show "description d = Some (dict_get (graph_attr g) ''description'' ''Generated by libsea.py'')"
    by (rule from_graph_fields(2))
  then show "\<exists>rendered. Graph_serialize d labels comments indent = Inr rendered"
    by (rule Graph_serialize_total)
qed

theorem description_required_witness:
  "\<exists>d rendered. from_graph example_graph = Inr d \<and>
      description d = Some ''Generated by libsea.py'' \<and>
      Graph_serialize d True True 0 = Inr rendered"
proof -
  from example_graph_assembles obtain d where d: "from_graph example_graph = Inr d" ..
  note t = description_required [of _ True True 0 example_graph d, THEN conjunct2, rule_format, OF d]
  from t have "description d = Some ''Generated by libsea.py''"
    by (simp add: example_graph_def dict_get_def)
  moreover from t obtain rendered where "Graph_serialize d True True 0 = Inr rendered" by blast
  ultimately show ?thesis using d by blast
qed

lemma Graph_serialize_paths:
  assumes "description self = Some descr"
  shows "\<exists>pre post. Graph_serialize self labels comments 0 =
           Inr (pre @ print_var ''paths'' (PList (paths self)) labels 4 @ post)"
proof -
  let ?parts = "
         [''Graph'' @ [NL],
          ''{'' @ [NL],
          if comments then indent_text (''# Metadata'' @ [NL]) 4 else [],
          print_var ''name'' (pstr (name self)) labels 4,
          print_var ''description'' (pstr descr) labels 4,
          if comments then [NL] else [],
          if comments then indent_text (''# Lengths'' @ [NL]) 4 else [],
          print_var ''numNodes'' (pint (length (nodes self))) labels 4,
          print_var ''numLinks'' (pint (length (links self))) labels 4,
          print_var ''numPaths'' (pint (length (paths self))) labels 4,
          print_var ''numPathLinks'' (pint 0) labels 4,
          if comments then [NL] else [],
          if comments then indent_text (''# Structural information'' @ [NL]) 4 else [],
          print_var ''links'' (PList (links self)) labels 4]"
  let ?rest = "
         [if comments then [NL] else [],
          if comments then indent_text (''# Attributes'' @ [NL]) 4 else [],
          print_var ''enumerations'' (PList (enums self)) labels 4,
          print_var ''attributeDefinitions'' (PList (map PDict (attributes self))) labels 4,
          print_var ''qualifiers'' (PList (qualifiers self)) labels 4,
          if comments then [NL] else [],
          if comments then indent_text (''# Visualization'' @ [NL]) 4 else [],
          print_var ''filters'' (Prim SNone) labels 4,
          print_var ''selectors'' (Prim SNone) labels 4,
          print_var ''displays'' (Prim SNone) labels 4,
          print_var ''presentations'' (Prim SNone) labels 4,
          if comments then [NL] else [],
          if comments then indent_text (''# Interface'' @ [NL]) 4 else [],
          print_var ''presentationMenus'' (Prim SNone) labels 4,
          print_var ''displayMenus'' (Prim SNone) labels 4,
          print_var ''selectorMenus'' (Prim SNone) labels 4,
          print_var ''filterMenus'' (Prim SNone) labels 4,
          print_var ''attributeMenus'' (Prim SNone) labels 4,
          ''}'']"
  have "Graph_serialize self labels comments 0 =
      Inr (concat ?parts @ print_var ''paths'' (PList (paths self)) labels 4 @ concat ?rest)"
    using assms by (simp add: Graph_serialize_def Graph_serialize_body_def)
  then show ?thesis by blast
qed

text \<open>
  Claim C10.  An empty List renders as an opening bracket, two newlines and the closing
  bracket.  In every document \<^verbatim>\<open>from_graph\<close> returns, \<^verbatim>\<open>paths\<close> is empty, and the
  rendered document contains the field as the label, the bracket, a blank line, and the
  indented closing bracket with its terminator.
\<close>

theorem empty_list_blank_line:
  "serialize (List []) labels 0 = [CHR ''['', NL, NL, CHR '']''] \<and>
   (from_graph g = Inr d \<longrightarrow>
      paths d = [] \<and>
      (\<exists>pre post. Graph_serialize d labels comments 0 =
         Inr (pre @ ''    '' @ label ''paths'' labels @ [CHR ''['', NL, NL] @ ''    ];'' @ [NL] @ post)))"
proof (intro conjI impI)
  show "serialize (List []) labels 0 = [CHR ''['', NL, NL, CHR '']'']" by (rule List_empty)
next
  assume fg: "from_graph g = Inr d"
  show p: "paths d = []" using fg by (rule from_graph_fields(4))
  from Graph_serialize_paths [OF from_graph_fields(2) [OF fg], of labels comments]
  obtain pre post where
    "Graph_serialize d labels comments 0 = Inr (pre @ print_var ''paths'' (PList []) labels 4 @ post)"
    unfolding p by blast
  then have "Graph_serialize d labels comments 0 =
      Inr (pre @ ''    '' @ label ''paths'' labels @ [CHR ''['', NL, NL] @ ''    ];'' @ [NL] @ post)"
    unfolding print_var_paths_empty by simp
  then show "\<exists>pre post. Graph_serialize d labels comments 0 =
         Inr (pre @ ''    '' @ label ''paths'' labels @ [CHR ''['', NL, NL] @ ''    ];'' @ [NL] @ post)"
    by blast
qed

theorem empty_list_blank_line_witness:
  "\<exists>d pre post. from_graph example_graph = Inr d \<and> paths d = [] \<and>
      Graph_serialize d True True 0 =
        Inr (pre @ ''    @paths=['' @ [NL, NL] @ ''    ];'' @ [NL] @ post)"
proof -
  from example_graph_assembles obtain d where d: "from_graph example_graph = Inr d" ..
  note t = empty_list_blank_line [of True example_graph d True, THEN conjunct2, rule_format, OF d]
  from t obtain pre post where
    "Graph_serialize d True True 0 =
       Inr (pre @ ''    '' @ label ''paths'' True @ [CHR ''['', NL, NL] @ ''    ];'' @ [NL] @ post)"
    by blast
  then have "Graph_serialize d True True 0 =
        Inr (pre @ ''    @paths=['' @ [NL, NL] @ ''    ];'' @ [NL] @ post)"
    by (simp add: label_def)
  with t d show ?thesis by blast
qed

section \<open>The contract on rendered texts\<close>

lemma composite_well_ended:
  "well_ended (serialize (String v) labels 0)"
  "well_ended (serialize (Bool b) labels 0)"
  "well_ended (serialize (Tuple names vals) labels 0)"
  "well_ended (serialize (List items) labels 0)"
  "well_ended (serialize (Object dict) labels 0)"
  by (simp_all add: well_ended_def String_serialize_def)

lemma str_nat_digits: "str_nat n \<noteq> [] \<and> set (str_nat n) \<subseteq> set ''0123456789''"
proof (induction n rule: str_nat.induct)
  case (1 n)
  have digit: "''0123456789'' ! k \<in> set ''0123456789''" if "k < 10" for k
    using that by (intro nth_mem) simp
  show ?case
  proof (cases "n < 10")
    case True
    then show ?thesis using digit [of n] by (subst (1 2) str_nat.simps) simp
  next
    case False
    with 1 have "str_nat (n div 10) \<noteq> [] \<and> set (str_nat (n div 10)) \<subseteq> set ''0123456789''"
      by simp
    moreover have "''0123456789'' ! (n mod 10) \<in> set ''0123456789''" by (rule digit) simp
    ultimately show ?thesis using False by (subst (1 2) str_nat.simps) simp
  qed
qed

lemma str_int_well_ended: "well_ended (str_int i)"
proof -
  have d: "c \<in> set ''0123456789'' \<Longrightarrow> c \<noteq> NL \<and> c \<noteq> CHR '';''" for c by auto
  define n where "n = (if i < 0 then nat (- i) else nat i)"
  have n: "str_nat n \<noteq> []" "set (str_nat n) \<subseteq> set ''0123456789''"
    using str_nat_digits [of n] by blast+
  have i: "str_int i = str_nat n \<or> str_int i = CHR ''-'' # str_nat n"
    by (simp add: str_int_def n_def)
  from n have "hd (str_nat n) \<in> set ''0123456789''" "last (str_nat n) \<in> set ''0123456789''"
    by (auto simp del: set_simps dest: hd_in_set last_in_set)
  then have "hd (str_nat n) \<noteq> NL" "last (str_nat n) \<noteq> NL" "last (str_nat n) \<noteq> CHR '';''"
    using d by blast+
  with n i show ?thesis by (auto simp: well_ended_def)
qed

lemma scalar_well_ended:
  "well_ended (serialize (Integer (SInt i)) labels 0)"
  "well_ended (serialize (Double (SInt i)) labels 0)"
  "well_ended (serialize (Identifier (SInt i)) labels 0)"
  using str_int_well_ended [of i] by (auto simp: well_ended_def)

lemma Graph_well_ended:
  "Graph_serialize self labels comments 0 = Inr t \<Longrightarrow> well_ended t"
  by (auto simp: Graph_serialize_def Graph_serialize_body_def well_ended_def
      split: option.splits)

text \<open>
  Claim C7 (the code differs).  An Identifier is rendered as \<open>$\<close> and its raw name, so
  a name that ends in the terminator or in a newline gives a text that ends in it, against
  the contract.  \<^verbatim>\<open>from_graph\<close> makes such an Identifier of an attribute name that
  ends so.
\<close>

theorem Identifier_ends_in_terminator:
  "serialize (Identifier (SStr ''a;'')) labels 0 = ''$a;'' \<and>
   last (serialize (Identifier (SStr ''a;'')) labels 0) = CHR '';'' \<and>
   \<not> well_ended (serialize (Identifier (SStr ''a;'')) labels 0) \<and>
   last (serialize (Identifier (SStr [CHR ''a'', NL])) labels 0) = NL \<and>
   map_of (make_attr attrs ''a;'') ''name'' = Some (PElem (Identifier (SStr ''a;'')))"
  by (simp add: well_ended_def make_attr_name)

end
